theory Spec2Isabelle
  imports Main "HOL-Library.Word"
begin

unbundle bit_operations_syntax

section \<open>Bytes, errors and outcomes\<close>

type_synonym byte = "8 word"
type_synonym uint16 = "16 word"
type_synonym uint32 = "32 word"

text \<open>
  The error values that reach the frame code. \<open>EOF\<close>, \<open>ErrUnexpectedEOF\<close> and
  \<open>ErrShortBuffer\<close> are those of Go's package io; \<open>ErrEOF\<close> and \<open>ErrBufferFull\<close> are
  the two errors of the typed buffers; \<open>OtherError\<close> stands for any other error value
  that a stream or a message reports.
\<close>

datatype error = EOF | ErrUnexpectedEOF | ErrShortBuffer | ErrEOF | ErrBufferFull | OtherError nat

text \<open>
  A Go call returns, panics (a slice expression out of range), or does not return at all
  (the doubling loop of \<open>SizedPayload\<close> on a capacity of zero).
\<close>

datatype 'a outcome = Returns 'a | Panics | Diverges

section \<open>Byte slices over a store of backing arrays\<close>

text \<open>
  A Go slice is a view of a backing array: the array, the offset of the view's first
  element, its length and its capacity. The store holds the backing arrays; \<open>make\<close>
  appends a new array of zero bytes. Two slices with the same \<open>arr\<close> alias each other.
\<close>

record slice =
  arr :: nat
  off :: nat
  len :: nat
  cap :: nat

type_synonym store = "byte list list"

definition nil_slice :: slice where
  "nil_slice = \<lparr>arr = 0, off = 0, len = 0, cap = 0\<rparr>"

definition make_bytes :: "nat \<Rightarrow> store \<Rightarrow> slice \<times> store" where
  "make_bytes n st = (\<lparr>arr = length st, off = 0, len = n, cap = n\<rparr>, st @ [replicate n 0])"

definition bytes_of :: "store \<Rightarrow> slice \<Rightarrow> byte list" where
  "bytes_of st s = take (len s) (drop (off s) (st ! arr s))"

text \<open>Go's \<open>copy(dst, src)\<close>: the first \<open>min (len dst) (len src)\<close> bytes of \<open>src\<close>.\<close>

definition copy_bytes :: "slice \<Rightarrow> byte list \<Rightarrow> store \<Rightarrow> store" where
  "copy_bytes dst src st =
     (let n = min (len dst) (length src); a = st ! arr dst
      in if n = 0 then st
         else st[arr dst := take (off dst) a @ take n src @ drop (off dst + n) a])"

text \<open>
  The slice expression \<open>s[low:high]\<close>; it panics (here \<open>None\<close>) unless
  \<open>low \<le> high \<le> cap s\<close>.
\<close>

definition reslice :: "slice \<Rightarrow> nat \<Rightarrow> nat \<Rightarrow> slice option" where
  "reslice s low high =
     (if low \<le> high \<and> high \<le> cap s
      then Some \<lparr>arr = arr s, off = off s + low, len = high - low, cap = cap s - low\<rparr>
      else None)"

section \<open>Big-endian integers and the typed buffers\<close>

text \<open>
  Modelled from the spec: package \<open>typed\<close> (\<open>typed.ReadBuffer\<close>, \<open>typed.WriteBuffer\<close>) is
  imported by \<open>frame.go\<close> and is not among the sources. The spec fixes what the frame code
  needs of it: multi-byte header fields are in one fixed byte order, big-endian; a
  write buffer is a byte sink bounded by the slice it wraps, it reports the number of
  bytes written, and a write that does not fit fails; a read buffer fails when its
  source cannot supply the bytes asked for. Both keep the first error.
\<close>

definition PutUint16 :: "uint16 \<Rightarrow> byte list" where
  "PutUint16 v = [ucast (drop_bit 8 v), ucast v]"

definition Uint16 :: "byte list \<Rightarrow> uint16" where
  "Uint16 b = push_bit 8 (ucast (b ! 0)) OR ucast (b ! 1)"

definition PutUint32 :: "uint32 \<Rightarrow> byte list" where
  "PutUint32 v = [ucast (drop_bit 24 v), ucast (drop_bit 16 v), ucast (drop_bit 8 v), ucast v]"

definition Uint32 :: "byte list \<Rightarrow> uint32" where
  "Uint32 b = push_bit 24 (ucast (b ! 0)) OR push_bit 16 (ucast (b ! 1))
                OR push_bit 8 (ucast (b ! 2)) OR ucast (b ! 3)"

record WriteBuffer =
  wb_buffer :: slice
  wb_remaining :: slice
  wb_err :: "error option"

definition WriteBuffer_Wrap :: "slice \<Rightarrow> WriteBuffer" where
  "WriteBuffer_Wrap b = \<lparr>wb_buffer = b, wb_remaining = b, wb_err = None\<rparr>"

text \<open>
  \<open>WriteBytes\<close> reserves \<open>length bs\<close> bytes of the remaining slice and copies \<open>bs\<close> there;
  after an error, or when the bytes do not fit, nothing is written.
\<close>

definition WriteBytes :: "byte list \<Rightarrow> WriteBuffer \<Rightarrow> store \<Rightarrow> WriteBuffer \<times> store" where
  "WriteBytes bs w st =
     (if wb_err w \<noteq> None then (w, st)
      else if len (wb_remaining w) < length bs then (w\<lparr>wb_err := Some ErrBufferFull\<rparr>, st)
      else case reslice (wb_remaining w) 0 (length bs) of
             None \<Rightarrow> (w\<lparr>wb_err := Some ErrBufferFull\<rparr>, st)
           | Some b \<Rightarrow>
               (case reslice (wb_remaining w) (length bs) (len (wb_remaining w)) of
                  None \<Rightarrow> (w\<lparr>wb_err := Some ErrBufferFull\<rparr>, st)
                | Some r \<Rightarrow> (w\<lparr>wb_remaining := r\<rparr>, copy_bytes b bs st)))"

definition WriteSingleByte :: "byte \<Rightarrow> WriteBuffer \<Rightarrow> store \<Rightarrow> WriteBuffer \<times> store" where
  "WriteSingleByte n = WriteBytes [n]"

definition WriteUint16 :: "uint16 \<Rightarrow> WriteBuffer \<Rightarrow> store \<Rightarrow> WriteBuffer \<times> store" where
  "WriteUint16 n = WriteBytes (PutUint16 n)"

definition WriteUint32 :: "uint32 \<Rightarrow> WriteBuffer \<Rightarrow> store \<Rightarrow> WriteBuffer \<times> store" where
  "WriteUint32 n = WriteBytes (PutUint32 n)"

definition BytesWritten :: "WriteBuffer \<Rightarrow> nat" where
  "BytesWritten w = len (wb_buffer w) - len (wb_remaining w)"

record ReadBuffer =
  rb_buffer :: slice
  rb_remaining :: slice
  rb_err :: "error option"

definition ReadBuffer_Wrap :: "slice \<Rightarrow> ReadBuffer" where
  "ReadBuffer_Wrap b = \<lparr>rb_buffer = b, rb_remaining = b, rb_err = None\<rparr>"

text \<open>
  \<open>ReadBytes n\<close> yields the next \<open>n\<close> bytes, or nothing (\<open>None\<close>, Go's nil slice) after
  an error or when fewer than \<open>n\<close> remain.
\<close>

definition ReadBytes :: "nat \<Rightarrow> ReadBuffer \<Rightarrow> store \<Rightarrow> byte list option \<times> ReadBuffer" where
  "ReadBytes n r st =
     (if rb_err r \<noteq> None then (None, r)
      else if len (rb_remaining r) < n then (None, r\<lparr>rb_err := Some ErrEOF\<rparr>)
      else case reslice (rb_remaining r) 0 n of
             None \<Rightarrow> (None, r\<lparr>rb_err := Some ErrEOF\<rparr>)
           | Some b \<Rightarrow>
               (case reslice (rb_remaining r) n (len (rb_remaining r)) of
                  None \<Rightarrow> (None, r\<lparr>rb_err := Some ErrEOF\<rparr>)
                | Some rest \<Rightarrow> (Some (bytes_of st b), r\<lparr>rb_remaining := rest\<rparr>)))"

definition ReadSingleByte :: "ReadBuffer \<Rightarrow> store \<Rightarrow> byte \<times> ReadBuffer" where
  "ReadSingleByte r st =
     (case ReadBytes 1 r st of (Some b, r') \<Rightarrow> (b ! 0, r') | (None, r') \<Rightarrow> (0, r'))"

definition ReadUint16 :: "ReadBuffer \<Rightarrow> store \<Rightarrow> uint16 \<times> ReadBuffer" where
  "ReadUint16 r st =
     (case ReadBytes 2 r st of (Some b, r') \<Rightarrow> (Uint16 b, r') | (None, r') \<Rightarrow> (0, r'))"

definition ReadUint32 :: "ReadBuffer \<Rightarrow> store \<Rightarrow> uint32 \<times> ReadBuffer" where
  "ReadUint32 r st =
     (case ReadBytes 4 r st of (Some b, r') \<Rightarrow> (Uint32 b, r') | (None, r') \<Rightarrow> (0, r'))"

section \<open>The frame header\<close>

definition MaxFrameSize :: nat where
  "MaxFrameSize = 65535"

text \<open>\<open>FrameHeaderSize\<close> is an untyped constant: it takes the type of its context.\<close>

definition FrameHeaderSize :: "'a::numeral" where
  "FrameHeaderSize = 16"

definition MaxFramePayloadSize :: nat where
  "MaxFramePayloadSize = MaxFrameSize - FrameHeaderSize"

definition initialPayloadCapacity :: nat where
  "initialPayloadCapacity = 1024"

text \<open>The field \<open>reserved [8]byte\<close>: an array of exactly eight bytes.\<close>

datatype reserved8 = Reserved8 byte byte byte byte byte byte byte byte

fun reserved_bytes :: "reserved8 \<Rightarrow> byte list" where
  "reserved_bytes (Reserved8 a b c d e f g h) = [a, b, c, d, e, f, g, h]"

text \<open>
  Modelled from the spec: the type \<open>messageType\<close> is declared outside the sources; the
  spec gives it one byte, and \<open>frame.go\<close> converts it to and from \<open>byte\<close>.
\<close>

type_synonym messageType = byte

record FrameHeader =
  size_fh :: uint16
  messageType :: messageType
  reserved1 :: byte
  ID :: uint32
  reserved :: reserved8

definition zero_FrameHeader :: FrameHeader where
  "zero_FrameHeader =
     \<lparr>size_fh = 0, messageType = 0, reserved1 = 0, ID = 0, reserved = Reserved8 0 0 0 0 0 0 0 0\<rparr>"

definition SetPayloadSize :: "uint16 \<Rightarrow> FrameHeader \<Rightarrow> FrameHeader" where
  "SetPayloadSize sz fh = fh\<lparr>size_fh := sz + FrameHeaderSize\<rparr>"

definition PayloadSize :: "FrameHeader \<Rightarrow> uint16" where
  "PayloadSize fh = size_fh fh - FrameHeaderSize"

definition FrameSize :: "FrameHeader \<Rightarrow> uint16" where
  "FrameSize fh = size_fh fh"

definition FrameHeader_read :: "FrameHeader \<Rightarrow> ReadBuffer \<Rightarrow> store \<Rightarrow> error option \<times> FrameHeader \<times> ReadBuffer" where
  "FrameHeader_read fh r st =
     (let (v, r) = ReadUint16 r st; fh = fh\<lparr>size_fh := v\<rparr>;
          (v, r) = ReadSingleByte r st; fh = fh\<lparr>messageType := v\<rparr>;
          (v, r) = ReadSingleByte r st; fh = fh\<lparr>reserved1 := v\<rparr>;
          (v, r) = ReadUint32 r st; fh = fh\<lparr>ID := v\<rparr>;
          (v, r) = ReadBytes (length (reserved_bytes (reserved fh))) r st
      in (rb_err r, fh, r))"

definition FrameHeader_write :: "FrameHeader \<Rightarrow> WriteBuffer \<Rightarrow> store \<Rightarrow> error option \<times> WriteBuffer \<times> store" where
  "FrameHeader_write fh w st =
     (let (w, st) = WriteUint16 (size_fh fh) w st;
          (w, st) = WriteSingleByte (messageType fh) w st;
          (w, st) = WriteSingleByte (reserved1 fh) w st;
          (w, st) = WriteUint32 (ID fh) w st;
          (w, st) = WriteBytes (reserved_bytes (reserved fh)) w st
      in (wb_err w, w, st))"

section \<open>Streams\<close>

text \<open>
  An \<open>io.Reader\<close> is a script of what the stream will deliver: each event is a run of
  bytes and the error, if any, that the stream reports with its last byte. A \<open>Read\<close>
  into \<open>k\<close> bytes of room takes at most \<open>k\<close> bytes of the first event and leaves the
  rest for the next call (a short read); a script that is used up reports \<open>EOF\<close>.
\<close>

type_synonym reader = "(byte list \<times> error option) list"

fun Read :: "nat \<Rightarrow> reader \<Rightarrow> (byte list \<times> error option) \<times> reader" where
  "Read k [] = (([], Some EOF), [])"
| "Read k ((d, e) # r) =
     (if length d \<le> k then ((d, e), r) else ((take k d, None), (drop k d, e) # r))"

text \<open>
  The loop of \<open>io.ReadAtLeast\<close>, \<open>for n < min && err == nil\<close>: \<open>acc\<close> holds the
  \<open>n\<close> bytes read so far, and each \<open>Read\<close> gets the room that is left.
\<close>

function ReadAtLeast_loop :: "reader \<Rightarrow> nat \<Rightarrow> byte list \<Rightarrow> byte list \<times> error option \<times> reader" where
  "ReadAtLeast_loop r m acc =
     (if length acc < m
      then (case Read (m - length acc) r of
              ((d, e), r') \<Rightarrow>
                if e = None then ReadAtLeast_loop r' m (acc @ d) else (acc @ d, e, r'))
      else (acc, None, r))"
  by pat_completeness auto
termination
proof (relation "measure (\<lambda>(r, m, acc). 2 * length r + (if length acc < m then 1 else 0))")
  show "wf (measure (\<lambda>(r, m, acc). 2 * length r + (if length acc < m then 1 else (0::nat))))"
    by simp
next
  fix r :: reader and m :: nat and acc :: "byte list" and x xa d e
  assume "length acc < m" and "(x, xa) = Read (m - length acc) r" and "(d, e) = x" and "e = None"
  then show "((xa, m, acc @ d), r, m, acc)
          \<in> measure (\<lambda>(r, m, acc). 2 * length r + (if length acc < m then 1 else 0))"
    by (cases r) (auto split: if_splits)
qed

text \<open>
  \<open>io.ReadFull(r, buf)\<close>: the bytes read are stored in \<open>buf\<close> as they arrive; the error
  is dropped when \<open>buf\<close> was filled, and an \<open>EOF\<close> after some bytes becomes
  \<open>ErrUnexpectedEOF\<close>.
\<close>

definition ReadFull :: "reader \<Rightarrow> slice \<Rightarrow> store \<Rightarrow> (nat \<times> error option) \<times> reader \<times> store" where
  "ReadFull r buf st =
     (let (data, err, r') = ReadAtLeast_loop r (len buf) [];
          n = length data;
          err = (if len buf \<le> n then None
                 else if 0 < n \<and> err = Some EOF then Some ErrUnexpectedEOF
                 else err)
      in ((n, err), r', copy_bytes buf data st))"

text \<open>
  Modelled from the spec: \<open>typed.ReadBuffer.FillFrom\<close> (package \<open>typed\<close> is not among the
  sources) reads exactly \<open>n\<close> bytes from the stream into the wrapped slice, across short
  reads, and fails when the stream fails or ends first.
\<close>

definition FillFrom :: "ReadBuffer \<Rightarrow> reader \<Rightarrow> nat \<Rightarrow> store \<Rightarrow> (nat \<times> error option) \<times> ReadBuffer \<times> reader \<times> store" where
  "FillFrom rb r n st =
     (if len (rb_buffer rb) < n then ((0, Some ErrEOF), rb, r, st)
      else case reslice (rb_buffer rb) 0 n of
             None \<Rightarrow> ((0, Some ErrEOF), rb, r, st)
           | Some s \<Rightarrow>
               (let rb = rb\<lparr>rb_err := None, rb_remaining := s\<rparr>;
                    (res, r, st) = ReadFull r s st
                in (res, rb, r, st)))"

text \<open>An in-memory sink (\<open>bytes.Buffer\<close>): \<open>Write\<close> appends all of \<open>p\<close> and never fails.\<close>

definition sink_Write :: "byte list \<Rightarrow> byte list \<Rightarrow> (nat \<times> error option) \<times> byte list" where
  "sink_Write p buf = ((length p, None), buf @ p)"

section \<open>The frame\<close>

record Frame =
  buffer :: slice
  headerBuffer :: slice
  Header :: FrameHeader
  Payload :: slice

definition zero_Frame :: Frame where
  "zero_Frame =
     \<lparr>buffer = nil_slice, headerBuffer = nil_slice, Header = zero_FrameHeader, Payload = nil_slice\<rparr>"

definition updateBufferSize :: "Frame \<Rightarrow> nat \<Rightarrow> store \<Rightarrow> (Frame \<times> store) outcome" where
  "updateBufferSize f payloadCapacity st =
     (let (newBuffer, st) = make_bytes payloadCapacity st;
          st = copy_bytes newBuffer (bytes_of st (buffer f)) st;
          f = f\<lparr>buffer := newBuffer\<rparr>
      in case reslice (buffer f) FrameHeaderSize (len (buffer f)) of
           None \<Rightarrow> Panics
         | Some p \<Rightarrow>
             (let f = f\<lparr>Payload := p\<rparr>
              in case reslice (buffer f) 0 FrameHeaderSize of
                   None \<Rightarrow> Panics
                 | Some h \<Rightarrow> Returns (f\<lparr>headerBuffer := h\<rparr>, st)))"

definition NewFrame :: "store \<Rightarrow> (Frame \<times> store) outcome" where
  "NewFrame st = updateBufferSize zero_Frame initialPayloadCapacity st"

text \<open>
  The loop \<open>for sz < needed { sz <<= 1 }\<close> of \<open>SizedPayload\<close>. It does not end on a
  capacity of zero. (\<open>sz\<close> is a 64-bit \<open>int\<close> and \<open>needed\<close> is below \<open>2 ^ 16\<close>, so
  the shift never overflows.)
\<close>

partial_function (option) grow_loop :: "nat \<Rightarrow> nat \<Rightarrow> nat option" where
  "grow_loop sz needed = (if sz < needed then grow_loop (push_bit 1 sz) needed else Some sz)"

text \<open>
  \<open>needed\<close> is \<open>int(FrameHeaderSize + f.Header.PayloadSize())\<close>: the sum is taken in
  \<open>uint16\<close>, the type of \<open>PayloadSize()\<close>, and converted afterwards.
\<close>

definition SizedPayload :: "Frame \<Rightarrow> store \<Rightarrow> (slice \<times> Frame \<times> store) outcome" where
  "SizedPayload f st =
     (let needed = unat (FrameHeaderSize + PayloadSize (Header f));
          sz = cap (buffer f);
          grown = (if sz < needed
                   then (case grow_loop sz needed of
                           None \<Rightarrow> Diverges
                         | Some sz \<Rightarrow> updateBufferSize f sz st)
                   else Returns (f, st))
      in case grown of
           Returns (f, st) \<Rightarrow>
             (case reslice (Payload f) 0 (unat (PayloadSize (Header f))) of
                None \<Rightarrow> Panics
              | Some p \<Rightarrow> Returns (p, f, st))
         | Panics \<Rightarrow> Panics
         | Diverges \<Rightarrow> Diverges)"

definition ReadIn :: "Frame \<Rightarrow> reader \<Rightarrow> store \<Rightarrow> (error option \<times> Frame \<times> reader \<times> store) outcome" where
  "ReadIn f r st =
     (let rbuf = ReadBuffer_Wrap (headerBuffer f);
          ((n, err), rbuf, r, st) = FillFrom rbuf r FrameHeaderSize st
      in if err \<noteq> None then Returns (err, f, r, st)
         else let (err, h, rbuf) = FrameHeader_read (Header f) rbuf st;
                  f = f\<lparr>Header := h\<rparr>
              in if err \<noteq> None then Returns (err, f, r, st)
                 else if 0 < PayloadSize (Header f)
                 then (case SizedPayload f st of
                         Returns (p, f, st) \<Rightarrow>
                           (let ((n, err), r, st) = ReadFull r p st
                            in if err \<noteq> None then Returns (err, f, r, st)
                               else Returns (None, f, r, st))
                       | Panics \<Rightarrow> Panics
                       | Diverges \<Rightarrow> Diverges)
                 else Returns (None, f, r, st))"

text \<open>
  \<open>WriteOut\<close> takes the \<open>io.Writer\<close> as its \<open>Write\<close> function and its state.
\<close>

definition WriteOut :: "Frame \<Rightarrow> (byte list \<Rightarrow> 'w \<Rightarrow> (nat \<times> error option) \<times> 'w) \<Rightarrow> 'w \<Rightarrow> store \<Rightarrow> (error option \<times> 'w \<times> store) outcome" where
  "WriteOut f w_Write w st =
     (let wbuf = WriteBuffer_Wrap (headerBuffer f);
          (err, wbuf, st) = FrameHeader_write (Header f) wbuf st
      in if err \<noteq> None then Returns (err, w, st)
         else case reslice (buffer f) 0 (unat (FrameSize (Header f))) of
                None \<Rightarrow> Panics
              | Some fullFrame \<Rightarrow>
                  (let ((n, err), w) = w_Write (bytes_of st fullFrame) w
                   in if err \<noteq> None then Returns (err, w, st)
                      else Returns (None, w, st)))"

text \<open>
  Modelled from the spec: the interface \<open>message\<close> is declared outside the sources. A
  message has a correlation id, a one-byte type tag, and an encoder that writes into a
  bounded write buffer and may fail.
\<close>

record message =
  msg_ID :: uint32
  msg_messageType :: messageType
  msg_write :: "WriteBuffer \<Rightarrow> store \<Rightarrow> error option \<times> WriteBuffer \<times> store"

text \<open>
  \<open>Frame.write\<close>. The slice expression \<open>f.Payload[:]\<close> is \<open>f.Payload\<close> itself, and
  \<open>uint16(wbuf.BytesWritten())\<close> keeps the low 16 bits.
\<close>

definition Frame_write :: "Frame \<Rightarrow> message \<Rightarrow> store \<Rightarrow> error option \<times> Frame \<times> store" where
  "Frame_write f msg st =
     (let wbuf = WriteBuffer_Wrap (Payload f);
          (err, wbuf, st) = msg_write msg wbuf st
      in if err \<noteq> None then (err, f, st)
         else let h = Header f;
                  h = h\<lparr>ID := msg_ID msg\<rparr>;
                  h = h\<lparr>reserved1 := 0\<rparr>;
                  h = h\<lparr>messageType := msg_messageType msg\<rparr>;
                  h = SetPayloadSize (of_nat (BytesWritten wbuf)) h
              in (None, f\<lparr>Header := h\<rparr>, st))"

text \<open>
  A message whose encoder writes the byte strings \<open>cs\<close> one after the other through the
  buffer and returns the buffer's error.
\<close>

definition write_chunks :: "byte list list \<Rightarrow> WriteBuffer \<Rightarrow> store \<Rightarrow> error option \<times> WriteBuffer \<times> store" where
  "write_chunks cs w st =
     (let (w, st) = fold (\<lambda>c (w, st). WriteBytes c w st) cs (w, st) in (wb_err w, w, st))"

definition bytes_message :: "uint32 \<Rightarrow> messageType \<Rightarrow> byte list list \<Rightarrow> message" where
  "bytes_message i m cs = \<lparr>msg_ID = i, msg_messageType = m, msg_write = write_chunks cs\<rparr>"

section \<open>Notions used to state the properties\<close>

text \<open>
  A slice is in order in a store when its array exists, its capacity runs to the end of
  the array, and its length is within its capacity: what \<open>make\<close> and the slice
  expressions of Go establish.
\<close>

definition slice_ok :: "store \<Rightarrow> slice \<Rightarrow> bool" where
  "slice_ok st s \<longleftrightarrow> arr s < length st \<and> off s + cap s = length (st ! arr s) \<and> len s \<le> cap s"

text \<open>The array \<open>a\<close> with \<open>bs\<close> stored from index \<open>i\<close> on.\<close>

definition splice :: "'a list \<Rightarrow> nat \<Rightarrow> 'a list \<Rightarrow> 'a list" where
  "splice a i bs = take i a @ bs @ drop (i + length bs) a"

text \<open>The sixteen bytes of a header on the wire, in the order \<open>FrameHeader.write\<close> emits them.\<close>

definition header_bytes :: "FrameHeader \<Rightarrow> byte list" where
  "header_bytes fh =
     PutUint16 (size_fh fh) @ [messageType fh] @ [reserved1 fh] @ PutUint32 (ID fh)
       @ reserved_bytes (reserved fh)"

text \<open>
  The state in which \<open>updateBufferSize\<close> leaves a frame: \<open>buffer\<close> is a whole array of
  at least sixteen bytes, \<open>headerBuffer\<close> is \<open>buffer[:16]\<close> and \<open>Payload\<close> is \<open>buffer[16:]\<close>.
\<close>

definition frame_wf :: "store \<Rightarrow> Frame \<Rightarrow> bool" where
  "frame_wf st f \<longleftrightarrow>
     arr (buffer f) < length st \<and> length (st ! arr (buffer f)) = cap (buffer f) \<and>
     off (buffer f) = 0 \<and> len (buffer f) = cap (buffer f) \<and> 16 \<le> cap (buffer f) \<and>
     headerBuffer f = \<lparr>arr = arr (buffer f), off = 0, len = 16, cap = cap (buffer f)\<rparr> \<and>
     Payload f = \<lparr>arr = arr (buffer f), off = 16, len = cap (buffer f) - 16,
                  cap = cap (buffer f) - 16\<rparr>"

text \<open>A stream that delivers its bytes without reporting an error of its own.\<close>

definition quiet :: "reader \<Rightarrow> bool" where
  "quiet r \<longleftrightarrow> list_all (\<lambda>ev. snd ev = None) r"

definition stream_bytes :: "reader \<Rightarrow> byte list" where
  "stream_bytes r = concat (map fst r)"

section \<open>Big-endian encoding and the splice of a list\<close>

lemma Uint16_PutUint16: "Uint16 (PutUint16 v) = v"
  unfolding Uint16_def PutUint16_def
  by (rule bit_word_eqI) (auto simp: bit_simps)

lemma Uint32_PutUint32: "Uint32 (PutUint32 v) = v"
  unfolding Uint32_def PutUint32_def
proof (rule bit_word_eqI)
  fix n :: nat
  assume "n < LENGTH(32)"
  then consider "n < 8" | "8 \<le> n" "n < 16" | "16 \<le> n" "n < 24" | "24 \<le> n" "n < 32"
    by fastforce
  then show "bit (push_bit 24 (ucast ([ucast (drop_bit 24 v), ucast (drop_bit 16 v), ucast (drop_bit 8 v), ucast v :: byte] ! 0)) OR
                 push_bit 16 (ucast ([ucast (drop_bit 24 v), ucast (drop_bit 16 v), ucast (drop_bit 8 v), ucast v :: byte] ! 1)) OR
                 push_bit 8 (ucast ([ucast (drop_bit 24 v), ucast (drop_bit 16 v), ucast (drop_bit 8 v), ucast v :: byte] ! 2)) OR
                 ucast ([ucast (drop_bit 24 v), ucast (drop_bit 16 v), ucast (drop_bit 8 v), ucast v :: byte] ! 3) :: uint32) n = bit v n"
    by cases (auto simp: bit_simps)
qed

lemma length_PutUint16: "length (PutUint16 v) = 2" by (simp add: PutUint16_def)

lemma length_PutUint32: "length (PutUint32 v) = 4" by (simp add: PutUint32_def)

lemma length_reserved_bytes: "length (reserved_bytes r) = 8" by (cases r) simp

lemma length_header_bytes: "length (header_bytes h) = 16"
  by (simp add: header_bytes_def length_PutUint16 length_PutUint32 length_reserved_bytes)

lemma length_splice: "i + length bs \<le> length a \<Longrightarrow> length (splice a i bs) = length a"
  by (simp add: splice_def)

lemma splice_splice: "i + length xs + length ys \<le> length a \<Longrightarrow>
  splice (splice a i xs) (i + length xs) ys = splice a i (xs @ ys)"
  by (simp add: splice_def ac_simps)

lemma splice_Nil: "i \<le> length a \<Longrightarrow> splice a i [] = a"
  by (simp add: splice_def)

lemma take_drop_splice: "i + length bs \<le> length a \<Longrightarrow> take (length bs) (drop i (splice a i bs)) = bs"
  by (simp add: splice_def)

lemma take_splice: "i \<le> length a \<Longrightarrow> take i (splice a i bs) = take i a"
  by (simp add: splice_def)

lemma drop_splice: "i + length bs \<le> length a \<Longrightarrow> drop (i + length bs) (splice a i bs) = drop (i + length bs) a"
  by (simp add: splice_def)

section \<open>The typed buffers on a slice in order\<close>

lemma WriteBytes_ok:
  assumes "wb_err w = None" "slice_ok st (wb_remaining w)" "length bs \<le> len (wb_remaining w)"
  shows "WriteBytes bs w st =
           (w\<lparr>wb_remaining := \<lparr>arr = arr (wb_remaining w), off = off (wb_remaining w) + length bs,
                                len = len (wb_remaining w) - length bs,
                                cap = cap (wb_remaining w) - length bs\<rparr>\<rparr>,
            st[arr (wb_remaining w) := splice (st ! arr (wb_remaining w)) (off (wb_remaining w)) bs])"
  using assms
  by (auto simp: WriteBytes_def reslice_def slice_ok_def copy_bytes_def splice_def Let_def)

lemma slice_ok_advance:
  assumes "slice_ok st s" "n \<le> len s" "length bs' = n"
  shows "slice_ok (st[arr s := splice (st ! arr s) (off s) bs'])
           \<lparr>arr = arr s, off = off s + n, len = len s - n, cap = cap s - n\<rparr>"
  using assms by (auto simp: slice_ok_def length_splice)

lemma WriteBytes_append:
  assumes "wb_err w = None" "slice_ok st (wb_remaining w)"
    "length xs + length ys \<le> len (wb_remaining w)"
  shows "(case WriteBytes xs w st of (w', st') \<Rightarrow> WriteBytes ys w' st') = WriteBytes (xs @ ys) w st"
proof -
  let ?r = "wb_remaining w"
  let ?st1 = "st[arr ?r := splice (st ! arr ?r) (off ?r) xs]"
  let ?r1 = "\<lparr>arr = arr ?r, off = off ?r + length xs, len = len ?r - length xs, cap = cap ?r - length xs\<rparr>"
  have ok1: "slice_ok ?st1 ?r1"
    using assms by (intro slice_ok_advance) auto
  have 1: "WriteBytes xs w st = (w\<lparr>wb_remaining := ?r1\<rparr>, ?st1)"
    using assms by (simp add: WriteBytes_ok)
  have 2: "WriteBytes ys (w\<lparr>wb_remaining := ?r1\<rparr>) ?st1 =
      (w\<lparr>wb_remaining := \<lparr>arr = arr ?r, off = off ?r + length xs + length ys,
            len = len ?r - length xs - length ys, cap = cap ?r - length xs - length ys\<rparr>\<rparr>,
       ?st1[arr ?r := splice (?st1 ! arr ?r) (off ?r + length xs) ys])"
    using assms ok1 by (subst WriteBytes_ok) auto
  have 3: "?st1[arr ?r := splice (?st1 ! arr ?r) (off ?r + length xs) ys]
            = st[arr ?r := splice (st ! arr ?r) (off ?r) (xs @ ys)]"
    using assms by (auto simp: slice_ok_def splice_splice)
  have 4: "WriteBytes (xs @ ys) w st =
      (w\<lparr>wb_remaining := \<lparr>arr = arr ?r, off = off ?r + length xs + length ys,
            len = len ?r - length xs - length ys, cap = cap ?r - length xs - length ys\<rparr>\<rparr>,
       st[arr ?r := splice (st ! arr ?r) (off ?r) (xs @ ys)])"
    using assms by (subst WriteBytes_ok) (auto simp: add.assoc)
  show ?thesis
    unfolding 1 4 prod.case 2 3 ..
qed

lemma WriteBytes_Nil: "wb_err w = None \<Longrightarrow> slice_ok st (wb_remaining w) \<Longrightarrow> WriteBytes [] w st = (w, st)"
  by (simp add: WriteBytes_def reslice_def slice_ok_def copy_bytes_def)

lemma fold_WriteBytes_ok:
  assumes "wb_err w = None" "slice_ok st (wb_remaining w)" "length (concat cs) \<le> len (wb_remaining w)"
  shows "fold (\<lambda>c (w, st). WriteBytes c w st) cs (w, st) = WriteBytes (concat cs) w st"
  using assms
proof (induction cs arbitrary: w st)
  case Nil
  then show ?case by (simp add: WriteBytes_Nil)
next
  case (Cons c cs)
  let ?r = "wb_remaining w"
  let ?st1 = "st[arr ?r := splice (st ! arr ?r) (off ?r) c]"
  let ?r1 = "\<lparr>arr = arr ?r, off = off ?r + length c, len = len ?r - length c, cap = cap ?r - length c\<rparr>"
  have fit: "length c + length (concat cs) \<le> len ?r"
    using Cons.prems by simp
  have 1: "WriteBytes c w st = (w\<lparr>wb_remaining := ?r1\<rparr>, ?st1)"
    using Cons.prems fit by (simp add: WriteBytes_ok)
  have ok1: "slice_ok ?st1 ?r1"
    using Cons.prems fit by (intro slice_ok_advance) auto
  have "fold (\<lambda>c (w, st). WriteBytes c w st) (c # cs) (w, st)
         = fold (\<lambda>c (w, st). WriteBytes c w st) cs (w\<lparr>wb_remaining := ?r1\<rparr>, ?st1)"
    by (simp add: 1)
  also have "\<dots> = WriteBytes (concat cs) (w\<lparr>wb_remaining := ?r1\<rparr>) ?st1"
    using Cons.prems ok1 fit by (intro Cons.IH) auto
  also have "\<dots> = (case WriteBytes c w st of (w', st') \<Rightarrow> WriteBytes (concat cs) w' st')"
    by (simp add: 1)
  also have "\<dots> = WriteBytes (c @ concat cs) w st"
    using Cons.prems fit by (intro WriteBytes_append) auto
  finally show ?case by simp
qed

lemma FrameHeader_write_fold:
  "FrameHeader_write h w st =
     (case fold (\<lambda>c (w, st). WriteBytes c w st)
        [PutUint16 (size_fh h), [messageType h], [reserved1 h], PutUint32 (ID h), reserved_bytes (reserved h)] (w, st)
      of (w', st') \<Rightarrow> (wb_err w', w', st'))"
  by (simp add: FrameHeader_write_def WriteUint16_def WriteUint32_def WriteSingleByte_def
      split: prod.splits)

lemma FrameHeader_write_ok:
  assumes "wb_err w = None" "slice_ok st (wb_remaining w)" "16 \<le> len (wb_remaining w)"
  shows "FrameHeader_write h w st =
           (None,
            w\<lparr>wb_remaining := \<lparr>arr = arr (wb_remaining w), off = off (wb_remaining w) + 16,
                                len = len (wb_remaining w) - 16,
                                cap = cap (wb_remaining w) - 16\<rparr>\<rparr>,
            st[arr (wb_remaining w) := splice (st ! arr (wb_remaining w)) (off (wb_remaining w)) (header_bytes h)])"
proof -
  let ?cs = "[PutUint16 (size_fh h), [messageType h], [reserved1 h], PutUint32 (ID h), reserved_bytes (reserved h)]"
  have c: "concat ?cs = header_bytes h"
    by (simp add: header_bytes_def)
  have "length (concat ?cs) \<le> len (wb_remaining w)"
    using assms unfolding c by (simp add: length_header_bytes)
  then have "fold (\<lambda>c (w, st). WriteBytes c w st) ?cs (w, st) = WriteBytes (concat ?cs) w st"
    using assms by (intro fold_WriteBytes_ok)
  then show ?thesis
    using assms unfolding FrameHeader_write_fold c
    by (simp add: WriteBytes_ok length_header_bytes)
qed

lemma length_bytes_of: "slice_ok st s \<Longrightarrow> length (bytes_of st s) = len s"
  by (auto simp: slice_ok_def bytes_of_def)

lemma slice_ok_skip:
  "slice_ok st s \<Longrightarrow> n \<le> len s \<Longrightarrow>
   slice_ok st \<lparr>arr = arr s, off = off s + n, len = len s - n, cap = cap s - n\<rparr>"
  by (auto simp: slice_ok_def)

lemma bytes_of_skip:
  "bytes_of st \<lparr>arr = arr s, off = off s + n, len = len s - n, cap = c\<rparr> = drop n (bytes_of st s)"
  by (simp add: bytes_of_def drop_take add.commute)

lemma ReadBytes_ok:
  assumes "rb_err r = None" "slice_ok st (rb_remaining r)" "n \<le> len (rb_remaining r)"
  shows "ReadBytes n r st =
           (Some (take n (bytes_of st (rb_remaining r))),
            r\<lparr>rb_remaining := \<lparr>arr = arr (rb_remaining r), off = off (rb_remaining r) + n,
                                len = len (rb_remaining r) - n, cap = cap (rb_remaining r) - n\<rparr>\<rparr>)"
  using assms
  by (auto simp: ReadBytes_def reslice_def slice_ok_def bytes_of_def min_def)

lemma ReadBytes_skip:
  assumes "rb_err r = None" "slice_ok st (rb_remaining r)" "k + n \<le> len (rb_remaining r)"
  shows "ReadBytes n (r\<lparr>rb_remaining := \<lparr>arr = arr (rb_remaining r), off = off (rb_remaining r) + k,
                                len = len (rb_remaining r) - k, cap = cap (rb_remaining r) - k\<rparr>\<rparr>) st =
           (Some (take n (drop k (bytes_of st (rb_remaining r)))),
            r\<lparr>rb_remaining := \<lparr>arr = arr (rb_remaining r), off = off (rb_remaining r) + (k + n),
                                len = len (rb_remaining r) - (k + n), cap = cap (rb_remaining r) - (k + n)\<rparr>\<rparr>)"
proof -
  let ?s = "rb_remaining r"
  let ?sk = "\<lparr>arr = arr ?s, off = off ?s + k, len = len ?s - k, cap = cap ?s - k\<rparr>"
  have ok: "slice_ok st ?sk"
    using assms by (intro slice_ok_skip) auto
  have "ReadBytes n (r\<lparr>rb_remaining := ?sk\<rparr>) st =
          (Some (take n (bytes_of st ?sk)),
           r\<lparr>rb_remaining := \<lparr>arr = arr ?s, off = off ?s + k + n,
                                len = len ?s - k - n, cap = cap ?s - k - n\<rparr>\<rparr>)"
    using assms ok by (subst ReadBytes_ok) auto
  then show ?thesis
    by (simp only: bytes_of_skip add.assoc diff_diff_left)
qed

lemma FrameHeader_read_ok:
  assumes "rb_err r = None" "slice_ok st (rb_remaining r)" "16 \<le> len (rb_remaining r)"
  shows "FrameHeader_read h r st =
           (None,
            h\<lparr>size_fh := Uint16 (take 2 (bytes_of st (rb_remaining r))),
              messageType := bytes_of st (rb_remaining r) ! 2,
              reserved1 := bytes_of st (rb_remaining r) ! 3,
              ID := Uint32 (take 4 (drop 4 (bytes_of st (rb_remaining r))))\<rparr>,
            r\<lparr>rb_remaining := \<lparr>arr = arr (rb_remaining r), off = off (rb_remaining r) + 16,
                                len = len (rb_remaining r) - 16, cap = cap (rb_remaining r) - 16\<rparr>\<rparr>)"
proof -
  let ?s = "rb_remaining r"
  let ?bs = "bytes_of st ?s"
  let ?adv = "\<lambda>n. \<lparr>arr = arr ?s, off = off ?s + n, len = len ?s - n, cap = cap ?s - n\<rparr>"
  have len: "length ?bs = len ?s"
    using assms by (simp add: length_bytes_of)
  have 1: "ReadUint16 r st = (Uint16 (take 2 ?bs), r\<lparr>rb_remaining := ?adv 2\<rparr>)"
    using assms by (simp add: ReadUint16_def ReadBytes_ok)
  have 2: "ReadSingleByte (r\<lparr>rb_remaining := ?adv 2\<rparr>) st = (?bs ! 2, r\<lparr>rb_remaining := ?adv 3\<rparr>)"
    using assms len ReadBytes_skip[of r st 2 1] by (simp add: ReadSingleByte_def)
  have 3: "ReadSingleByte (r\<lparr>rb_remaining := ?adv 3\<rparr>) st = (?bs ! 3, r\<lparr>rb_remaining := ?adv 4\<rparr>)"
    using assms len ReadBytes_skip[of r st 3 1] by (simp add: ReadSingleByte_def)
  have 4: "ReadUint32 (r\<lparr>rb_remaining := ?adv 4\<rparr>) st = (Uint32 (take 4 (drop 4 ?bs)), r\<lparr>rb_remaining := ?adv 8\<rparr>)"
    using assms len ReadBytes_skip[of r st 4 4] by (simp add: ReadUint32_def)
  have 5: "ReadBytes 8 (r\<lparr>rb_remaining := ?adv 8\<rparr>) st = (Some (take 8 (drop 8 ?bs)), r\<lparr>rb_remaining := ?adv 16\<rparr>)"
    using assms len ReadBytes_skip[of r st 8 8] by simp
  show ?thesis
    unfolding FrameHeader_read_def Let_def 1 prod.case 2 3 4 length_reserved_bytes 5
    using assms by simp
qed

lemma header_bytes_decode:
  "Uint16 (take 2 (header_bytes h @ xs)) = size_fh h"
  "(header_bytes h @ xs) ! 2 = messageType h"
  "(header_bytes h @ xs) ! 3 = reserved1 h"
  "Uint32 (take 4 (drop 4 (header_bytes h @ xs))) = ID h"
  using Uint16_PutUint16[of "size_fh h"] Uint32_PutUint32[of "ID h"]
  by (simp_all add: header_bytes_def PutUint16_def PutUint32_def Uint16_def Uint32_def)

section \<open>A header in a sixteen-byte buffer\<close>

lemma write_then_bytes:
  assumes "slice_ok st b" "len b = 16"
  shows "FrameHeader_write h (WriteBuffer_Wrap b) st =
          (None,
           \<lparr>wb_buffer = b, wb_remaining = \<lparr>arr = arr b, off = off b + 16, len = 0, cap = cap b - 16\<rparr>, wb_err = None\<rparr>,
           st[arr b := splice (st ! arr b) (off b) (header_bytes h)])"
    and "slice_ok (st[arr b := splice (st ! arr b) (off b) (header_bytes h)]) b"
    and "bytes_of (st[arr b := splice (st ! arr b) (off b) (header_bytes h)]) b = header_bytes h"
proof -
  show "FrameHeader_write h (WriteBuffer_Wrap b) st =
          (None,
           \<lparr>wb_buffer = b, wb_remaining = \<lparr>arr = arr b, off = off b + 16, len = 0, cap = cap b - 16\<rparr>, wb_err = None\<rparr>,
           st[arr b := splice (st ! arr b) (off b) (header_bytes h)])"
    using assms by (subst FrameHeader_write_ok) (auto simp: WriteBuffer_Wrap_def)
  have fit: "off b + length (header_bytes h) \<le> length (st ! arr b)"
    using assms by (auto simp: slice_ok_def length_header_bytes)
  show "slice_ok (st[arr b := splice (st ! arr b) (off b) (header_bytes h)]) b"
    using assms fit by (auto simp: slice_ok_def length_splice)
  show "bytes_of (st[arr b := splice (st ! arr b) (off b) (header_bytes h)]) b = header_bytes h"
    using assms fit take_drop_splice[of "off b" "header_bytes h" "st ! arr b"]
    by (auto simp: bytes_of_def slice_ok_def length_header_bytes)
qed

lemma header_bytes_reserved:
  "header_bytes h ! 3 = reserved1 h" "drop 8 (header_bytes h) = reserved_bytes (reserved h)"
  by (simp_all add: header_bytes_def PutUint16_def PutUint32_def)

section \<open>Writes that do not fit, and frames in order\<close>

lemma fold_WriteBytes_err:
  "wb_err w \<noteq> None \<Longrightarrow> fold (\<lambda>c (w, st). WriteBytes c w st) cs (w, st) = (w, st)"
  by (induction cs) (auto simp: WriteBytes_def)

lemma fold_WriteBytes_full:
  assumes "wb_err w = None" "slice_ok st (wb_remaining w)" "len (wb_remaining w) < length (concat cs)"
  shows "wb_err (fst (fold (\<lambda>c (w, st). WriteBytes c w st) cs (w, st))) = Some ErrBufferFull"
  using assms
proof (induction cs arbitrary: w st)
  case Nil
  then show ?case by simp
next
  case (Cons c cs)
  let ?r = "wb_remaining w"
  show ?case
  proof (cases "length c \<le> len ?r")
    case True
    let ?st1 = "st[arr ?r := splice (st ! arr ?r) (off ?r) c]"
    let ?r1 = "\<lparr>arr = arr ?r, off = off ?r + length c, len = len ?r - length c, cap = cap ?r - length c\<rparr>"
    have 1: "WriteBytes c w st = (w\<lparr>wb_remaining := ?r1\<rparr>, ?st1)"
      using Cons.prems True by (simp add: WriteBytes_ok)
    have ok1: "slice_ok ?st1 ?r1"
      using Cons.prems True by (intro slice_ok_advance) auto
    have "wb_err (fst (fold (\<lambda>c (w, st). WriteBytes c w st) cs (w\<lparr>wb_remaining := ?r1\<rparr>, ?st1))) = Some ErrBufferFull"
      using Cons.prems True ok1 by (intro Cons.IH) auto
    then show ?thesis by (simp add: 1)
  next
    case False
    then have 1: "WriteBytes c w st = (w\<lparr>wb_err := Some ErrBufferFull\<rparr>, st)"
      using Cons.prems by (simp add: WriteBytes_def)
    show ?thesis
      by (simp add: 1 fold_WriteBytes_err)
  qed
qed

lemma frame_wf_Payload_ok: "frame_wf st f \<Longrightarrow> slice_ok st (Payload f)"
  by (auto simp: frame_wf_def slice_ok_def)

lemma frame_wf_headerBuffer_ok: "frame_wf st f \<Longrightarrow> slice_ok st (headerBuffer f)"
  by (auto simp: frame_wf_def slice_ok_def)

lemma frame_wf_buffer_ok: "frame_wf st f \<Longrightarrow> slice_ok st (buffer f)"
  by (auto simp: frame_wf_def slice_ok_def)

section \<open>Growth of the buffer\<close>

lemma grow_loop_returns:
  assumes "0 < sz"
  shows "\<exists>k. grow_loop sz needed = Some (sz * 2 ^ k) \<and> needed \<le> sz * 2 ^ k \<and>
             (\<forall>j<k. sz * 2 ^ j < needed)"
  using assms
proof (induction "needed - sz" arbitrary: sz rule: less_induct)
  case less
  show ?case
  proof (cases "sz < needed")
    case False
    then have "grow_loop sz needed = Some (sz * 2 ^ 0)"
      by (subst grow_loop.simps) simp
    with False show ?thesis
      by (intro exI[of _ 0]) simp
  next
    case True
    with less.prems have "needed - 2 * sz < needed - sz" "0 < 2 * sz"
      by auto
    from less.hyps[OF this] obtain k where
      k: "grow_loop (2 * sz) needed = Some (2 * sz * 2 ^ k)" "needed \<le> 2 * sz * 2 ^ k"
         "\<forall>j<k. 2 * sz * 2 ^ j < needed"
      by blast
    have "grow_loop sz needed = grow_loop (2 * sz) needed"
      using True by (subst grow_loop.simps) (simp add: push_bit_eq_mult mult.commute)
    with k(1) have 1: "grow_loop sz needed = Some (sz * 2 ^ Suc k)"
      by (simp add: mult.assoc mult.left_commute)
    have 2: "needed \<le> sz * 2 ^ Suc k"
      using k(2) by (simp add: mult.assoc mult.left_commute)
    have 3: "\<forall>j<Suc k. sz * 2 ^ j < needed"
    proof (intro allI impI)
      fix j assume "j < Suc k"
      show "sz * 2 ^ j < needed"
      proof (cases j)
        case 0
        with True show ?thesis by simp
      next
        case (Suc j')
        with \<open>j < Suc k\<close> k(3) have "2 * sz * 2 ^ j' < needed" by simp
        with Suc show ?thesis by (simp add: mult.assoc mult.left_commute)
      qed
    qed
    from 1 2 3 show ?thesis by blast
  qed
qed

lemma updateBufferSize_ok:
  assumes "16 \<le> n" "arr (buffer f) < length st \<or> len (buffer f) = 0"
  shows "updateBufferSize f n st =
           Returns (f\<lparr>buffer := \<lparr>arr = length st, off = 0, len = n, cap = n\<rparr>,
                      Payload := \<lparr>arr = length st, off = 16, len = n - 16, cap = n - 16\<rparr>,
                      headerBuffer := \<lparr>arr = length st, off = 0, len = 16, cap = n\<rparr>\<rparr>,
                    st @ [take n (bytes_of st (buffer f)) @ replicate (n - length (bytes_of st (buffer f))) 0])"
proof -
  have b: "bytes_of (st @ [replicate n 0]) (buffer f) = bytes_of st (buffer f)"
    using assms(2) by (auto simp: bytes_of_def nth_append)
  let ?old = "bytes_of st (buffer f)"
  have c: "copy_bytes \<lparr>arr = length st, off = 0, len = n, cap = n\<rparr> ?old (st @ [replicate n 0])
        = st @ [take n ?old @ replicate (n - length ?old) 0]"
    using assms(1) by (auto simp: copy_bytes_def Let_def min_def)
  show ?thesis
    using assms(1)
    by (simp add: updateBufferSize_def make_bytes_def b c reslice_def FrameHeaderSize_def)
qed

lemma updateBufferSize_wf:
  assumes "frame_wf st f" "cap (buffer f) \<le> n"
  shows "updateBufferSize f n st =
           Returns (f\<lparr>buffer := \<lparr>arr = length st, off = 0, len = n, cap = n\<rparr>,
                      Payload := \<lparr>arr = length st, off = 16, len = n - 16, cap = n - 16\<rparr>,
                      headerBuffer := \<lparr>arr = length st, off = 0, len = 16, cap = n\<rparr>\<rparr>,
                    st @ [st ! arr (buffer f) @ replicate (n - cap (buffer f)) 0])"
proof -
  have "bytes_of st (buffer f) = st ! arr (buffer f)"
    using assms by (simp add: bytes_of_def frame_wf_def)
  moreover have "length (st ! arr (buffer f)) = cap (buffer f)"
    using assms by (simp add: frame_wf_def)
  ultimately show ?thesis
    using assms by (subst updateBufferSize_ok) (auto simp: frame_wf_def)
qed

lemma frame_wf_grown:
  assumes "frame_wf st f" "cap (buffer f) \<le> n"
  shows "frame_wf (st @ [st ! arr (buffer f) @ replicate (n - cap (buffer f)) 0])
           (f\<lparr>buffer := \<lparr>arr = length st, off = 0, len = n, cap = n\<rparr>,
              Payload := \<lparr>arr = length st, off = 16, len = n - 16, cap = n - 16\<rparr>,
              headerBuffer := \<lparr>arr = length st, off = 0, len = 16, cap = n\<rparr>\<rparr>)"
  using assms by (auto simp: frame_wf_def)

lemma NewFrame_ok:
  "NewFrame st = Returns (\<lparr>buffer = \<lparr>arr = length st, off = 0, len = 1024, cap = 1024\<rparr>,
                           headerBuffer = \<lparr>arr = length st, off = 0, len = 16, cap = 1024\<rparr>,
                           Header = zero_FrameHeader,
                           Payload = \<lparr>arr = length st, off = 16, len = 1008, cap = 1008\<rparr>\<rparr>,
                          st @ [replicate 1024 0])"
  unfolding NewFrame_def initialPayloadCapacity_def
  by (subst updateBufferSize_ok) (simp_all add: zero_Frame_def nil_slice_def bytes_of_def)

lemma NewFrame_wf:
  "NewFrame st = Returns (f, st') \<Longrightarrow> frame_wf st' f"
  unfolding NewFrame_ok by (auto simp: frame_wf_def nth_append)

lemma needed_eq_size: "(FrameHeaderSize :: uint16) + PayloadSize h = size_fh h"
  by (simp add: PayloadSize_def)

lemma unat_PayloadSize:
  "unat (PayloadSize h) = (if 16 \<le> unat (size_fh h) then unat (size_fh h) - 16 else unat (size_fh h) + 65520)"
  using unat_sub_if' [of "size_fh h" 16]
  by (simp add: PayloadSize_def FrameHeaderSize_def)

lemma PayloadSize_bound_iff:
  "unat (PayloadSize h) \<le> MaxFramePayloadSize \<longleftrightarrow> 16 \<le> unat (size_fh h)"
proof -
  have "unat (size_fh h) < 2 ^ LENGTH(16)"
    by (rule unsigned_less)
  then have "unat (size_fh h) < 65536"
    by simp
  then show ?thesis
    by (auto simp: unat_PayloadSize MaxFramePayloadSize_def MaxFrameSize_def FrameHeaderSize_def)
qed

lemma SizedPayload_fits:
  assumes "frame_wf st f" "unat (size_fh (Header f)) \<le> cap (buffer f)"
    "unat (PayloadSize (Header f)) \<le> cap (buffer f) - 16"
  shows "SizedPayload f st =
           Returns (\<lparr>arr = arr (buffer f), off = 16, len = unat (PayloadSize (Header f)),
                      cap = cap (buffer f) - 16\<rparr>, f, st)"
  using assms
  by (simp add: SizedPayload_def Let_def needed_eq_size reslice_def frame_wf_def)

lemma SizedPayload_wrapped_panics:
  assumes "frame_wf st f" "unat (size_fh (Header f)) < 16"
    "cap (buffer f) - 16 < unat (PayloadSize (Header f))"
  shows "SizedPayload f st = Panics"
  using assms
  by (simp add: SizedPayload_def Let_def needed_eq_size reslice_def frame_wf_def)

lemma SizedPayload_grows:
  assumes "frame_wf st f" "cap (buffer f) < unat (size_fh (Header f))"
  shows "\<exists>k. SizedPayload f st =
           Returns (\<lparr>arr = length st, off = 16, len = unat (PayloadSize (Header f)),
                      cap = cap (buffer f) * 2 ^ k - 16\<rparr>,
                    f\<lparr>buffer := \<lparr>arr = length st, off = 0, len = cap (buffer f) * 2 ^ k,
                                 cap = cap (buffer f) * 2 ^ k\<rparr>,
                      Payload := \<lparr>arr = length st, off = 16, len = cap (buffer f) * 2 ^ k - 16,
                                  cap = cap (buffer f) * 2 ^ k - 16\<rparr>,
                      headerBuffer := \<lparr>arr = length st, off = 0, len = 16,
                                       cap = cap (buffer f) * 2 ^ k\<rparr>\<rparr>,
                    st @ [st ! arr (buffer f) @ replicate (cap (buffer f) * 2 ^ k - cap (buffer f)) 0]) \<and>
           unat (size_fh (Header f)) \<le> cap (buffer f) * 2 ^ k \<and>
           (\<forall>j<k. cap (buffer f) * 2 ^ j < unat (size_fh (Header f)))"
proof -
  let ?c = "cap (buffer f)" and ?n = "unat (size_fh (Header f))"
  have "0 < ?c" using assms(1) by (simp add: frame_wf_def)
  from grow_loop_returns[OF this, of ?n] obtain k where
    k: "grow_loop ?c ?n = Some (?c * 2 ^ k)" "?n \<le> ?c * 2 ^ k" "\<forall>j<k. ?c * 2 ^ j < ?n"
    by blast
  have ge: "?c \<le> ?c * 2 ^ k" by simp
  have s16: "16 \<le> ?n" using assms by (simp add: frame_wf_def)
  then have ps: "unat (PayloadSize (Header f)) = ?n - 16"
    by (simp add: unat_PayloadSize)
  have "SizedPayload f st =
           Returns (\<lparr>arr = length st, off = 16, len = unat (PayloadSize (Header f)),
                      cap = ?c * 2 ^ k - 16\<rparr>,
                    f\<lparr>buffer := \<lparr>arr = length st, off = 0, len = ?c * 2 ^ k, cap = ?c * 2 ^ k\<rparr>,
                      Payload := \<lparr>arr = length st, off = 16, len = ?c * 2 ^ k - 16, cap = ?c * 2 ^ k - 16\<rparr>,
                      headerBuffer := \<lparr>arr = length st, off = 0, len = 16, cap = ?c * 2 ^ k\<rparr>\<rparr>,
                    st @ [st ! arr (buffer f) @ replicate (?c * 2 ^ k - ?c) 0])"
    using assms k(1,2) ps
    by (simp add: SizedPayload_def Let_def needed_eq_size updateBufferSize_wf[OF assms(1) ge] reslice_def)
  with k show ?thesis by blast
qed

section \<open>Reading from a stream\<close>

declare ReadAtLeast_loop.simps [simp del]

lemma stream_bytes_Cons: "stream_bytes ((d, e) # r) = d @ stream_bytes r"
  by (simp add: stream_bytes_def)

lemma quiet_Cons: "quiet ((d, e) # r) \<longleftrightarrow> e = None \<and> quiet r"
  by (simp add: quiet_def)

lemma ReadAtLeast_loop_quiet:
  assumes "quiet r" "length acc \<le> m" "m \<le> length acc + length (stream_bytes r)"
  shows "\<exists>r'. ReadAtLeast_loop r m acc = (acc @ take (m - length acc) (stream_bytes r), None, r') \<and>
              quiet r' \<and> stream_bytes r' = drop (m - length acc) (stream_bytes r)"
  using assms
proof (induction r m acc rule: ReadAtLeast_loop.induct)
  case (1 r m acc)
  show ?case
  proof (cases "length acc < m")
    case False
    with "1.prems" show ?thesis
      by (subst ReadAtLeast_loop.simps) simp
  next
    case True
    let ?k = "m - length acc"
    from True "1.prems" obtain d e rs where r: "r = (d, e) # rs"
      by (cases r) (auto simp: stream_bytes_def)
    with "1.prems" have e: "e = None" and q: "quiet rs"
      by (simp_all add: quiet_Cons)
    show ?thesis
    proof (cases "length d \<le> ?k")
      case short: True
      have rd: "Read ?k r = ((d, None), rs)"
        using r e short by simp
      have "\<exists>r'. ReadAtLeast_loop rs m (acc @ d) =
                 ((acc @ d) @ take (m - length (acc @ d)) (stream_bytes rs), None, r') \<and>
                 quiet r' \<and> stream_bytes r' = drop (m - length (acc @ d)) (stream_bytes rs)"
        using True short q "1.prems" r
        by (intro "1.IH"[OF True rd[symmetric] refl refl]) (auto simp: stream_bytes_Cons)
      then obtain r' where
        ih: "ReadAtLeast_loop rs m (acc @ d) =
               ((acc @ d) @ take (m - length (acc @ d)) (stream_bytes rs), None, r')"
            "quiet r'" "stream_bytes r' = drop (m - length (acc @ d)) (stream_bytes rs)"
        by blast
      have "ReadAtLeast_loop r m acc = ReadAtLeast_loop rs m (acc @ d)"
        using True rd by (subst ReadAtLeast_loop.simps) simp
      with ih short r show ?thesis
        by (simp add: stream_bytes_Cons)
    next
      case long: False
      have rd: "Read ?k r = ((take ?k d, None), (drop ?k d, e) # rs)"
        using r long by simp
      have "ReadAtLeast_loop r m acc = ReadAtLeast_loop ((drop ?k d, e) # rs) m (acc @ take ?k d)"
        using True rd by (subst ReadAtLeast_loop.simps) simp
      also have "\<dots> = (acc @ take ?k d, None, (drop ?k d, e) # rs)"
        using True long by (subst ReadAtLeast_loop.simps) simp
      finally show ?thesis
        using long r e q by (simp add: stream_bytes_Cons quiet_Cons)
    qed
  qed
qed

lemma copy_bytes_ok:
  "slice_ok st d \<Longrightarrow> length bs \<le> len d \<Longrightarrow>
   copy_bytes d bs st = st[arr d := splice (st ! arr d) (off d) bs]"
  by (auto simp: copy_bytes_def Let_def splice_def min_def)

lemma length_copy_bytes: "length (copy_bytes d bs st) = length st"
  by (simp add: copy_bytes_def Let_def)

lemma ReadFull_quiet:
  assumes "quiet r" "len buf \<le> length (stream_bytes r)" "slice_ok st buf"
  shows "\<exists>r'. ReadFull r buf st =
                ((len buf, None), r',
                 st[arr buf := splice (st ! arr buf) (off buf) (take (len buf) (stream_bytes r))]) \<and>
              quiet r' \<and> stream_bytes r' = drop (len buf) (stream_bytes r)"
proof -
  from ReadAtLeast_loop_quiet[of r "[]" "len buf"] assms obtain r' where
    l: "ReadAtLeast_loop r (len buf) [] = (take (len buf) (stream_bytes r), None, r')"
       "quiet r'" "stream_bytes r' = drop (len buf) (stream_bytes r)"
    by auto
  have "length (take (len buf) (stream_bytes r)) = len buf"
    using assms by simp
  then show ?thesis
    using l assms by (auto simp: ReadFull_def copy_bytes_ok Let_def)
qed

section \<open>Whole frames: encode, write out, read in\<close>

lemma frame_wf_store_update:
  assumes "frame_wf st f" "length a' = length (st ! arr (buffer f))"
  shows "frame_wf (st[arr (buffer f) := a']) f"
  using assms by (auto simp: frame_wf_def)

lemma FillFrom_header:
  assumes "frame_wf st f"
  shows "FillFrom (ReadBuffer_Wrap (headerBuffer f)) r FrameHeaderSize st =
           (case ReadFull r (headerBuffer f) st of
              (res, r', st') \<Rightarrow> (res, ReadBuffer_Wrap (headerBuffer f), r', st'))"
  using assms
  by (auto simp: FillFrom_def ReadBuffer_Wrap_def reslice_def frame_wf_def FrameHeaderSize_def
      split: prod.splits)

lemma ReadIn_quiet_header:
  assumes wf: "frame_wf st f" and q: "quiet r" and n: "16 \<le> length (stream_bytes r)"
  defines "sb \<equiv> stream_bytes r"
  defines "st1 \<equiv> st[arr (buffer f) := splice (st ! arr (buffer f)) 0 (take 16 sb)]"
  defines "f1 \<equiv> f\<lparr>Header := (Header f)\<lparr>size_fh := Uint16 (take 2 sb), messageType := sb ! 2,
                        reserved1 := sb ! 3, ID := Uint32 (take 4 (drop 4 sb))\<rparr>\<rparr>"
  shows "\<exists>r1. quiet r1 \<and> stream_bytes r1 = drop 16 sb \<and> frame_wf st1 f1 \<and>
           ReadIn f r st =
             (if 0 < PayloadSize (Header f1)
              then (case SizedPayload f1 st1 of
                      Returns (p, f2, st2) \<Rightarrow>
                        (case ReadFull r1 p st2 of ((k, err), r2, st3) \<Rightarrow> Returns (err, f2, r2, st3))
                    | Panics \<Rightarrow> Panics
                    | Diverges \<Rightarrow> Diverges)
              else Returns (None, f1, r1, st1))"
proof -
  let ?hb = "headerBuffer f"
  have hb: "?hb = \<lparr>arr = arr (buffer f), off = 0, len = 16, cap = cap (buffer f)\<rparr>"
    using wf by (simp add: frame_wf_def)
  have ok: "slice_ok st ?hb"
    using wf by (rule frame_wf_headerBuffer_ok)
  from ReadFull_quiet[OF q _ ok] n obtain r1 where
    rf: "ReadFull r ?hb st = ((16, None), r1, st1)" and q1: "quiet r1"
    and s1: "stream_bytes r1 = drop 16 sb"
    unfolding st1_def sb_def by (auto simp: hb)
  have la: "length (st ! arr (buffer f)) = cap (buffer f)" "16 \<le> cap (buffer f)"
    using wf by (simp_all add: frame_wf_def)
  have lsp: "length (splice (st ! arr (buffer f)) 0 (take 16 sb)) = length (st ! arr (buffer f))"
    using la n by (intro length_splice) (simp add: sb_def)
  have wf1: "frame_wf st1 f"
    unfolding st1_def using wf lsp by (rule frame_wf_store_update)
  then have wf1': "frame_wf st1 f1"
    by (simp add: frame_wf_def f1_def)
  have ok1: "slice_ok st1 ?hb"
    using wf1 by (rule frame_wf_headerBuffer_ok)
  have "arr (buffer f) < length st"
    using wf by (simp add: frame_wf_def)
  then have b1: "bytes_of st1 ?hb = take 16 sb"
    using la n take_drop_splice[of 0 "take 16 sb" "st ! arr (buffer f)"]
    by (simp add: bytes_of_def hb st1_def sb_def)
  have rd: "FrameHeader_read (Header f) (ReadBuffer_Wrap ?hb) st1 =
      (None, Header f1,
       (ReadBuffer_Wrap ?hb)\<lparr>rb_remaining := \<lparr>arr = arr ?hb, off = off ?hb + 16,
                                len = len ?hb - 16, cap = cap ?hb - 16\<rparr>\<rparr>)"
    using ok1 n
    by (subst FrameHeader_read_ok)
      (auto simp: ReadBuffer_Wrap_def b1[unfolded hb] hb f1_def sb_def drop_take)
  have "ReadIn f r st =
             (if 0 < PayloadSize (Header f1)
              then (case SizedPayload f1 st1 of
                      Returns (p, f2, st2) \<Rightarrow>
                        (case ReadFull r1 p st2 of ((k, err), r2, st3) \<Rightarrow> Returns (err, f2, r2, st3))
                    | Panics \<Rightarrow> Panics
                    | Diverges \<Rightarrow> Diverges)
              else Returns (None, f1, r1, st1))"
    unfolding ReadIn_def FillFrom_header[OF wf] rf Let_def prod.case rd
    by (auto simp: f1_def split: outcome.splits prod.splits)
  with q1 s1 wf1' show ?thesis by blast
qed

lemma Frame_write_bytes_ok:
  assumes wf: "frame_wf st f" and fit: "length (concat cs) \<le> len (Payload f)"
  shows "Frame_write f (bytes_message i m cs) st =
           (None,
            f\<lparr>Header := SetPayloadSize (of_nat (length (concat cs)))
                          ((Header f)\<lparr>ID := i, reserved1 := 0, messageType := m\<rparr>)\<rparr>,
            st[arr (buffer f) := splice (st ! arr (buffer f)) 16 (concat cs)])"
proof -
  let ?p = "concat cs" and ?P = "Payload f"
  have P: "?P = \<lparr>arr = arr (buffer f), off = 16, len = cap (buffer f) - 16, cap = cap (buffer f) - 16\<rparr>"
    using wf by (simp add: frame_wf_def)
  have ok: "slice_ok st ?P"
    using wf by (rule frame_wf_Payload_ok)
  have "fold (\<lambda>c (w, st). WriteBytes c w st) cs (WriteBuffer_Wrap ?P, st) = WriteBytes ?p (WriteBuffer_Wrap ?P) st"
    using ok fit by (intro fold_WriteBytes_ok) (auto simp: WriteBuffer_Wrap_def)
  also have "\<dots> = (\<lparr>wb_buffer = ?P,
                      wb_remaining = \<lparr>arr = arr ?P, off = off ?P + length ?p, len = len ?P - length ?p,
                                      cap = cap ?P - length ?p\<rparr>,
                      wb_err = None\<rparr>,
                    st[arr ?P := splice (st ! arr ?P) (off ?P) ?p])"
    using ok fit by (subst WriteBytes_ok) (auto simp: WriteBuffer_Wrap_def)
  finally have wc: "write_chunks cs (WriteBuffer_Wrap ?P) st =
      (None,
       \<lparr>wb_buffer = ?P,
        wb_remaining = \<lparr>arr = arr ?P, off = off ?P + length ?p, len = len ?P - length ?p,
                        cap = cap ?P - length ?p\<rparr>,
        wb_err = None\<rparr>,
       st[arr ?P := splice (st ! arr ?P) (off ?P) ?p])"
    by (simp add: write_chunks_def)
  have bw: "BytesWritten \<lparr>wb_buffer = ?P,
        wb_remaining = \<lparr>arr = arr ?P, off = off ?P + length ?p, len = len ?P - length ?p,
                        cap = cap ?P - length ?p\<rparr>,
        wb_err = None\<rparr> = length ?p"
    using fit by (simp add: BytesWritten_def)
  show ?thesis
    unfolding Frame_write_def Let_def bytes_message_def
    by (simp add: wc bw) (simp add: P)
qed

lemma WriteOut_sink_ok:
  assumes wf: "frame_wf st f" and fit: "unat (size_fh (Header f)) \<le> cap (buffer f)"
  shows "WriteOut f sink_Write w st =
           Returns (None,
                    w @ take (unat (size_fh (Header f))) (header_bytes (Header f) @ drop 16 (st ! arr (buffer f))),
                    st[arr (buffer f) := splice (st ! arr (buffer f)) 0 (header_bytes (Header f))])"
proof -
  let ?hb = "headerBuffer f" and ?A = "arr (buffer f)"
  have hb: "?hb = \<lparr>arr = ?A, off = 0, len = 16, cap = cap (buffer f)\<rparr>"
    using wf by (simp add: frame_wf_def)
  have ok: "slice_ok st ?hb"
    using wf by (rule frame_wf_headerBuffer_ok)
  have b: "buffer f = \<lparr>arr = ?A, off = 0, len = cap (buffer f), cap = cap (buffer f)\<rparr>"
    using wf by (cases "buffer f") (simp add: frame_wf_def)
  have la: "length (st ! ?A) = cap (buffer f)" "16 \<le> cap (buffer f)" "?A < length st"
    using wf by (simp_all add: frame_wf_def)
  have w1: "FrameHeader_write (Header f) (WriteBuffer_Wrap ?hb) st =
      (None,
       (WriteBuffer_Wrap ?hb)\<lparr>wb_remaining := \<lparr>arr = ?A, off = 16, len = 0, cap = cap (buffer f) - 16\<rparr>\<rparr>,
       st[?A := splice (st ! ?A) 0 (header_bytes (Header f))])"
    using ok by (subst FrameHeader_write_ok) (auto simp: WriteBuffer_Wrap_def hb)
  have sp: "splice (st ! ?A) 0 (header_bytes (Header f)) = header_bytes (Header f) @ drop 16 (st ! ?A)"
    by (simp add: splice_def length_header_bytes)
  have full: "bytes_of (st[?A := splice (st ! ?A) 0 (header_bytes (Header f))])
                \<lparr>arr = ?A, off = 0, len = unat (size_fh (Header f)), cap = cap (buffer f)\<rparr>
              = take (unat (size_fh (Header f))) (header_bytes (Header f) @ drop 16 (st ! ?A))"
    using la by (simp add: bytes_of_def sp)
  have rs: "reslice (buffer f) 0 (unat (FrameSize (Header f))) =
              Some \<lparr>arr = ?A, off = 0, len = unat (size_fh (Header f)), cap = cap (buffer f)\<rparr>"
    using fit wf by (simp add: reslice_def FrameSize_def frame_wf_def)
  show ?thesis
    unfolding WriteOut_def Let_def w1 prod.case rs
    by (simp add: full sink_Write_def)
qed

lemma SizedPayload_in_order:
  assumes wf: "frame_wf st f" and s16: "16 \<le> unat (size_fh (Header f))"
  shows "\<exists>f' st'. SizedPayload f st =
            Returns (\<lparr>arr = arr (buffer f'), off = 16, len = unat (PayloadSize (Header f)),
                       cap = cap (buffer f') - 16\<rparr>, f', st') \<and>
            frame_wf st' f' \<and> Header f' = Header f \<and>
            unat (size_fh (Header f)) \<le> cap (buffer f')"
proof (cases "cap (buffer f) < unat (size_fh (Header f))")
  case True
  from SizedPayload_grows[OF wf True] obtain k where
    sp: "SizedPayload f st =
           Returns (\<lparr>arr = length st, off = 16, len = unat (PayloadSize (Header f)),
                      cap = cap (buffer f) * 2 ^ k - 16\<rparr>,
                    f\<lparr>buffer := \<lparr>arr = length st, off = 0, len = cap (buffer f) * 2 ^ k,
                                 cap = cap (buffer f) * 2 ^ k\<rparr>,
                      Payload := \<lparr>arr = length st, off = 16, len = cap (buffer f) * 2 ^ k - 16,
                                  cap = cap (buffer f) * 2 ^ k - 16\<rparr>,
                      headerBuffer := \<lparr>arr = length st, off = 0, len = 16,
                                       cap = cap (buffer f) * 2 ^ k\<rparr>\<rparr>,
                    st @ [st ! arr (buffer f) @ replicate (cap (buffer f) * 2 ^ k - cap (buffer f)) 0])"
    and fit: "unat (size_fh (Header f)) \<le> cap (buffer f) * 2 ^ k"
    by blast
  have ge: "cap (buffer f) \<le> cap (buffer f) * 2 ^ k" by simp
  let ?f' = "f\<lparr>buffer := \<lparr>arr = length st, off = 0, len = cap (buffer f) * 2 ^ k,
                                 cap = cap (buffer f) * 2 ^ k\<rparr>,
                      Payload := \<lparr>arr = length st, off = 16, len = cap (buffer f) * 2 ^ k - 16,
                                  cap = cap (buffer f) * 2 ^ k - 16\<rparr>,
                      headerBuffer := \<lparr>arr = length st, off = 0, len = 16,
                                       cap = cap (buffer f) * 2 ^ k\<rparr>\<rparr>"
  let ?st' = "st @ [st ! arr (buffer f) @ replicate (cap (buffer f) * 2 ^ k - cap (buffer f)) 0]"
  from frame_wf_grown[OF wf ge] sp fit show ?thesis
    by (intro exI[of _ ?f'] exI[of _ ?st']) simp
next
  case False
  have "unat (PayloadSize (Header f)) \<le> cap (buffer f) - 16"
    using False s16 by (simp add: unat_PayloadSize)
  with False wf have "SizedPayload f st =
           Returns (\<lparr>arr = arr (buffer f), off = 16, len = unat (PayloadSize (Header f)),
                      cap = cap (buffer f) - 16\<rparr>, f, st)"
    by (intro SizedPayload_fits) auto
  with wf False show ?thesis
    by (intro exI[of _ f] exI[of _ st]) simp
qed

lemma ReadIn_frame_bytes:
  assumes wfg: "frame_wf stg g" and q: "quiet r"
    and sb: "stream_bytes r = header_bytes h @ p"
    and sz: "size_fh h = of_nat (length p) + 16"
    and L: "0 < length p" "length p \<le> 65519"
  shows "\<exists>g' r' st' pv.
           ReadIn g r stg = Returns (None, g', r', st') \<and>
           Header g' = (Header g)\<lparr>size_fh := size_fh h, messageType := messageType h,
                                  reserved1 := reserved1 h, ID := ID h\<rparr> \<and>
           frame_wf st' g' \<and>
           SizedPayload g' st' = Returns (pv, g', st') \<and>
           len pv = length p \<and> bytes_of st' pv = p \<and> stream_bytes r' = []"
proof -
  let ?sb = "stream_bytes r"
  let ?h1 = "(Header g)\<lparr>size_fh := size_fh h, messageType := messageType h,
                          reserved1 := reserved1 h, ID := ID h\<rparr>"
  let ?st1 = "stg[arr (buffer g) := splice (stg ! arr (buffer g)) 0 (take 16 ?sb)]"
  let ?g1 = "g\<lparr>Header := ?h1\<rparr>"
  have n: "16 \<le> length ?sb"
    by (simp add: sb length_header_bytes)
  have dec: "(Header g)\<lparr>size_fh := Uint16 (take 2 ?sb), messageType := ?sb ! 2,
                        reserved1 := ?sb ! 3, ID := Uint32 (take 4 (drop 4 ?sb))\<rparr> = ?h1"
    unfolding sb by (simp only: header_bytes_decode)
  from ReadIn_quiet_header[OF wfg q n] obtain r1 where
    q1: "quiet r1" and s1: "stream_bytes r1 = drop 16 ?sb" and wf1: "frame_wf ?st1 ?g1"
    and ri: "ReadIn g r stg =
             (if 0 < PayloadSize (Header ?g1)
              then (case SizedPayload ?g1 ?st1 of
                      Returns (p, f2, st2) \<Rightarrow>
                        (case ReadFull r1 p st2 of ((k, err), r2, st3) \<Rightarrow> Returns (err, f2, r2, st3))
                    | Panics \<Rightarrow> Panics
                    | Diverges \<Rightarrow> Diverges)
              else Returns (None, ?g1, r1, ?st1))"
    unfolding dec by blast
  have s1': "stream_bytes r1 = p"
    by (simp add: s1 sb length_header_bytes)
  have ul: "unat (of_nat (length p) :: uint16) = length p"
    using L by (simp add: unat_of_nat)
  have ps: "PayloadSize ?h1 = of_nat (length p)"
    by (simp add: PayloadSize_def sz FrameHeaderSize_def)
  have ups: "unat (PayloadSize ?h1) = length p"
    by (simp add: ps ul)
  have pos: "0 < PayloadSize ?h1"
    using L ups by (simp add: word_less_nat_alt)
  have us: "unat (size_fh ?h1) = length p + 16"
    using L unat_add_lem [of "of_nat (length p) :: uint16" 16] by (simp add: sz ul)
  then have s16: "16 \<le> unat (size_fh (Header ?g1))"
    by simp
  from SizedPayload_in_order[OF wf1 s16] obtain f2 st2 where
    sp: "SizedPayload ?g1 ?st1 =
            Returns (\<lparr>arr = arr (buffer f2), off = 16, len = unat (PayloadSize (Header ?g1)),
                       cap = cap (buffer f2) - 16\<rparr>, f2, st2)"
    and wf2: "frame_wf st2 f2" and h2: "Header f2 = Header ?g1"
    and fit2: "unat (size_fh (Header ?g1)) \<le> cap (buffer f2)"
    by blast
  let ?pv = "\<lparr>arr = arr (buffer f2), off = 16, len = length p, cap = cap (buffer f2) - 16\<rparr>"
  let ?A = "arr (buffer f2)"
  have sp': "SizedPayload ?g1 ?st1 = Returns (?pv, f2, st2)"
    using sp ups by simp
  have la: "length (st2 ! ?A) = cap (buffer f2)" "?A < length st2"
    using wf2 by (simp_all add: frame_wf_def)
  have c2: "length p + 16 \<le> cap (buffer f2)"
    using fit2 us by simp
  have okp: "slice_ok st2 ?pv"
    using la c2 by (simp add: slice_ok_def)
  from ReadFull_quiet[OF q1 _ okp] s1' obtain r2 where
    rf: "ReadFull r1 ?pv st2 = ((length p, None), r2, st2[?A := splice (st2 ! ?A) 16 p])"
    and s2: "stream_bytes r2 = []"
    by auto
  let ?st3 = "st2[?A := splice (st2 ! ?A) 16 p]"
  have lsp: "length (splice (st2 ! ?A) 16 p) = length (st2 ! ?A)"
    using la c2 by (intro length_splice) simp
  have wf3: "frame_wf ?st3 f2"
    using wf2 lsp by (rule frame_wf_store_update)
  have res: "ReadIn g r stg = Returns (None, f2, r2, ?st3)"
    unfolding ri using pos by (simp add: sp' rf)
  have sp3: "SizedPayload f2 ?st3 = Returns (?pv, f2, ?st3)"
    using SizedPayload_fits[OF wf3] fit2 h2 ups c2 by simp
  have b3: "bytes_of ?st3 ?pv = p"
    using la c2 take_drop_splice[of 16 p "st2 ! ?A"] by (simp add: bytes_of_def)
  from res h2 wf3 sp3 b3 s2 show ?thesis
    by (intro exI[of _ f2] exI[of _ r2] exI[of _ ?st3] exI[of _ ?pv]) simp
qed

lemma Frame_write_bytes_full:
  assumes "frame_wf st f" "len (Payload f) < length (concat cs)"
  shows "fst (Frame_write f (bytes_message i m cs) st) = Some ErrBufferFull"
proof -
  let ?res = "fold (\<lambda>c (w, st). WriteBytes c w st) cs (WriteBuffer_Wrap (Payload f), st)"
  have "wb_err (fst ?res) = Some ErrBufferFull"
    using assms by (intro fold_WriteBytes_full) (auto simp: WriteBuffer_Wrap_def frame_wf_Payload_ok)
  then have "fst (write_chunks cs (WriteBuffer_Wrap (Payload f)) st) = Some ErrBufferFull"
    by (auto simp: write_chunks_def split: prod.splits)
  then obtain w' st' where
    "write_chunks cs (WriteBuffer_Wrap (Payload f)) st = (Some ErrBufferFull, w', st')"
    by (cases "write_chunks cs (WriteBuffer_Wrap (Payload f)) st") auto
  then show ?thesis
    by (simp add: Frame_write_def bytes_message_def)
qed

lemma encode_then_WriteOut:
  assumes wf: "frame_wf st f"
    and fw: "Frame_write f (bytes_message i m cs) st = (None, f1, st1)"
    and L: "length (concat cs) \<le> 65519"
  shows "\<exists>st2. WriteOut f1 sink_Write w st1 =
                 Returns (None, w @ header_bytes (Header f1) @ concat cs, st2)"
    and "size_fh (Header f1) = of_nat (length (concat cs)) + 16"
    and "messageType (Header f1) = m" and "ID (Header f1) = i" and "reserved1 (Header f1) = 0"
    and "frame_wf st1 f1" and "length (concat cs) \<le> len (Payload f)"
proof -
  let ?p = "concat cs" and ?A = "arr (buffer f)"
  show fit: "length ?p \<le> len (Payload f)"
  proof (rule ccontr)
    assume "\<not> length ?p \<le> len (Payload f)"
    then have "fst (Frame_write f (bytes_message i m cs) st) = Some ErrBufferFull"
      using wf by (intro Frame_write_bytes_full) auto
    with fw show False by simp
  qed
  from Frame_write_bytes_ok[OF wf fit, of i m] fw have
    f1: "f1 = f\<lparr>Header := SetPayloadSize (of_nat (length ?p))
                          ((Header f)\<lparr>ID := i, reserved1 := 0, messageType := m\<rparr>)\<rparr>"
    and st1: "st1 = st[?A := splice (st ! ?A) 16 ?p]"
    by simp_all
  show sz: "size_fh (Header f1) = of_nat (length ?p) + 16"
    and "messageType (Header f1) = m" and "ID (Header f1) = i" and "reserved1 (Header f1) = 0"
    by (simp_all add: f1 SetPayloadSize_def FrameHeaderSize_def)
  have la: "length (st ! ?A) = cap (buffer f)" "16 \<le> cap (buffer f)" "?A < length st"
    and P: "len (Payload f) = cap (buffer f) - 16"
    using wf by (simp_all add: frame_wf_def)
  have c: "16 + length ?p \<le> cap (buffer f)"
    using fit P la by simp
  have lsp: "length (splice (st ! ?A) 16 ?p) = length (st ! ?A)"
    using la c by (intro length_splice) simp
  have "frame_wf st1 f"
    unfolding st1 using wf lsp by (rule frame_wf_store_update)
  then show wf1: "frame_wf st1 f1"
    by (simp add: frame_wf_def f1)
  have ul: "unat (of_nat (length ?p) :: uint16) = length ?p"
    using L by (simp add: unat_of_nat)
  have us: "unat (size_fh (Header f1)) = length ?p + 16"
    using L unat_add_lem [of "of_nat (length ?p) :: uint16" 16] by (simp add: sz ul)
  have b1: "buffer f1 = buffer f"
    by (simp add: f1)
  have fit1: "unat (size_fh (Header f1)) \<le> cap (buffer f1)"
    using us c by (simp add: b1)
  have arr1: "st1 ! ?A = take 16 (st ! ?A) @ ?p @ drop (16 + length ?p) (st ! ?A)"
    using la by (simp add: st1 splice_def)
  have "take (unat (size_fh (Header f1))) (header_bytes (Header f1) @ drop 16 (st1 ! arr (buffer f1)))
          = header_bytes (Header f1) @ ?p"
    using la by (simp add: us b1 arr1 length_header_bytes)
  with WriteOut_sink_ok[OF wf1 fit1, of w]
  show "\<exists>st2. WriteOut f1 sink_Write w st1 =
                 Returns (None, w @ header_bytes (Header f1) @ concat cs, st2)"
    by simp
qed

lemma quiet_bytewise: "quiet (map (\<lambda>b. ([b], None)) bs)"
  by (induction bs) (simp_all add: quiet_def)

lemma stream_bytes_bytewise: "stream_bytes (map (\<lambda>b. ([b], None)) bs) = bs"
  by (induction bs) (simp_all add: stream_bytes_def)

section \<open>Headers with a size below sixteen\<close>

lemma SizedPayload_undersized:
  assumes wf: "frame_wf st f" and s: "unat (size_fh (Header f)) < 16"
  shows "SizedPayload f st =
           (if unat (PayloadSize (Header f)) \<le> cap (buffer f) - 16
            then Returns (\<lparr>arr = arr (buffer f), off = 16, len = unat (PayloadSize (Header f)),
                            cap = cap (buffer f) - 16\<rparr>, f, st)
            else Panics)"
proof (cases "unat (PayloadSize (Header f)) \<le> cap (buffer f) - 16")
  case True
  have "unat (size_fh (Header f)) \<le> cap (buffer f)"
    using wf s by (simp add: frame_wf_def)
  from SizedPayload_fits[OF wf this True] True show ?thesis by simp
next
  case False
  then have "cap (buffer f) - 16 < unat (PayloadSize (Header f))" by simp
  from SizedPayload_wrapped_panics[OF wf s this] False show ?thesis by simp
qed

lemma ReadFull_shape:
  "\<exists>k e r' data. ReadFull r buf st = ((k, e), r', copy_bytes buf data st)"
  by (auto simp: ReadFull_def Let_def split: prod.splits)

lemma ReadIn_undersized_panics:
  assumes wf: "frame_wf st f" and q: "quiet r" and n: "16 \<le> length (stream_bytes r)"
    and s: "unat (Uint16 (take 2 (stream_bytes r))) < 16"
    and c: "cap (buffer f) < 65536"
  shows "ReadIn f r st = Panics"
proof -
  let ?sb = "stream_bytes r"
  define h1 where "h1 = (Header f)\<lparr>size_fh := Uint16 (take 2 ?sb), messageType := ?sb ! 2,
                              reserved1 := ?sb ! 3, ID := Uint32 (take 4 (drop 4 ?sb))\<rparr>"
  define st1 where "st1 = st[arr (buffer f) := splice (st ! arr (buffer f)) 0 (take 16 ?sb)]"
  let ?f1 = "f\<lparr>Header := h1\<rparr>"
  have s1: "unat (size_fh h1) < 16"
    using s by (simp add: h1_def)
  have A: "unat (PayloadSize h1) = unat (size_fh h1) + 65520"
    using s1 by (simp add: unat_PayloadSize)
  have pos: "0 < PayloadSize h1"
    using A by (simp add: word_less_nat_alt)
  from ReadIn_quiet_header[OF wf q n] obtain r1 where
    wf1: "frame_wf st1 ?f1"
    and ri: "ReadIn f r st =
             (if 0 < PayloadSize (Header ?f1)
              then (case SizedPayload ?f1 st1 of
                      Returns (p, f2, st2) \<Rightarrow>
                        (case ReadFull r1 p st2 of ((k, err), r2, st3) \<Rightarrow> Returns (err, f2, r2, st3))
                    | Panics \<Rightarrow> Panics
                    | Diverges \<Rightarrow> Diverges)
              else Returns (None, ?f1, r1, st1))"
    unfolding h1_def st1_def by blast
  have "SizedPayload ?f1 st1 = Panics"
    using SizedPayload_undersized[OF wf1] s1 A c by simp
  then show ?thesis
    unfolding ri using pos by simp
qed

section \<open>Streams that end early\<close>

lemma ReadAtLeast_loop_short:
  assumes "length acc + length (stream_bytes r) < m"
  shows "\<exists>d e r'. ReadAtLeast_loop r m acc = (d, Some e, r') \<and> length d < m"
  using assms
proof (induction r m acc rule: ReadAtLeast_loop.induct)
  case (1 r m acc)
  then have lt: "length acc < m" by simp
  show ?case
  proof (cases r)
    case Nil
    with lt show ?thesis
      by (subst ReadAtLeast_loop.simps) simp
  next
    case (Cons ev rs)
    obtain d e where ev: "ev = (d, e)" by (cases ev)
    have short: "length d \<le> m - length acc" and rest: "length (acc @ d) + length (stream_bytes rs) < m"
      using "1.prems" Cons ev by (simp_all add: stream_bytes_Cons)
    have rd: "Read (m - length acc) r = ((d, e), rs)"
      using Cons ev short by simp
    show ?thesis
    proof (cases e)
      case None
      from "1.IH"[OF lt rd[symmetric] refl None rest]
      have "\<exists>d' e' r'. ReadAtLeast_loop rs m (acc @ d) = (d', Some e', r') \<and> length d' < m" .
      moreover have "ReadAtLeast_loop r m acc = ReadAtLeast_loop rs m (acc @ d)"
        using lt rd None by (subst ReadAtLeast_loop.simps) simp
      ultimately show ?thesis by simp
    next
      case (Some x)
      have "ReadAtLeast_loop r m acc = (acc @ d, Some x, rs)"
        using lt rd Some by (subst ReadAtLeast_loop.simps) simp
      with rest show ?thesis by simp
    qed
  qed
qed

lemma ReadFull_short:
  assumes "length (stream_bytes r) < len buf"
  shows "\<exists>k e r' st'. ReadFull r buf st = ((k, Some e), r', st') \<and> k < len buf"
proof -
  from ReadAtLeast_loop_short[of "[]" r "len buf"] assms obtain d e r' where
    l: "ReadAtLeast_loop r (len buf) [] = (d, Some e, r')" "length d < len buf"
    by auto
  then show ?thesis
    by (auto simp: ReadFull_def Let_def)
qed

text \<open>
  Streams that end early. A stream that ends before sixteen bytes have arrived makes
  \<open>ReadIn\<close> return an error and leave the frame record as it was; a stream that
  delivers a header of size above 16 and ends before the declared payload is complete
  makes \<open>ReadIn\<close> return an error.
\<close>

lemma ReadIn_short_header:
  assumes wf: "frame_wf st f" and n: "length (stream_bytes r) < 16"
  shows "\<exists>e r' st'. ReadIn f r st = Returns (Some e, f, r', st')"
proof -
  have "len (headerBuffer f) = 16"
    using wf by (simp add: frame_wf_def)
  with ReadFull_short[of r "headerBuffer f" st] n obtain k e r' st' where
    "ReadFull r (headerBuffer f) st = ((k, Some e), r', st')"
    by auto
  then show ?thesis
    by (simp add: ReadIn_def FillFrom_header[OF wf])
qed

lemma ReadIn_short_payload:
  assumes wf: "frame_wf st f" and q: "quiet r" and n: "16 \<le> length (stream_bytes r)"
    and s: "16 < unat (Uint16 (take 2 (stream_bytes r)))"
    and short: "length (stream_bytes r) < unat (Uint16 (take 2 (stream_bytes r)))"
  shows "\<exists>e f' r' st'. ReadIn f r st = Returns (Some e, f', r', st')"
proof -
  let ?sb = "stream_bytes r"
  define h1 where "h1 = (Header f)\<lparr>size_fh := Uint16 (take 2 ?sb), messageType := ?sb ! 2,
                              reserved1 := ?sb ! 3, ID := Uint32 (take 4 (drop 4 ?sb))\<rparr>"
  define st1 where "st1 = st[arr (buffer f) := splice (st ! arr (buffer f)) 0 (take 16 ?sb)]"
  let ?f1 = "f\<lparr>Header := h1\<rparr>"
  have s1: "16 < unat (size_fh h1)"
    using s by (simp add: h1_def)
  then have ps: "unat (PayloadSize h1) = unat (size_fh h1) - 16"
    by (simp add: unat_PayloadSize)
  have pos: "0 < PayloadSize h1"
    using ps s1 by (simp add: word_less_nat_alt)
  from ReadIn_quiet_header[OF wf q n] obtain r1 where
    sb1: "stream_bytes r1 = drop 16 ?sb" and wf1: "frame_wf st1 ?f1"
    and ri: "ReadIn f r st =
             (if 0 < PayloadSize (Header ?f1)
              then (case SizedPayload ?f1 st1 of
                      Returns (p, f2, st2) \<Rightarrow>
                        (case ReadFull r1 p st2 of ((k, err), r2, st3) \<Rightarrow> Returns (err, f2, r2, st3))
                    | Panics \<Rightarrow> Panics
                    | Diverges \<Rightarrow> Diverges)
              else Returns (None, ?f1, r1, st1))"
    unfolding h1_def st1_def by blast
  have s16: "16 \<le> unat (size_fh (Header ?f1))"
    using s1 by simp
  from SizedPayload_in_order[OF wf1 s16] obtain f2 st2 where
    sp: "SizedPayload ?f1 st1 =
            Returns (\<lparr>arr = arr (buffer f2), off = 16, len = unat (PayloadSize (Header ?f1)),
                       cap = cap (buffer f2) - 16\<rparr>, f2, st2)"
    by blast
  let ?pv = "\<lparr>arr = arr (buffer f2), off = 16, len = unat (PayloadSize h1), cap = cap (buffer f2) - 16\<rparr>"
  have sz: "size_fh h1 = Uint16 (take 2 ?sb)"
    by (simp add: h1_def)
  have "length (stream_bytes r1) < len ?pv"
    using short n s1 by (simp add: sb1 ps sz)
  from ReadFull_short[OF this, of st2] obtain k e r2 st3 where
    rf: "ReadFull r1 ?pv st2 = ((k, Some e), r2, st3)"
    by blast
  have "ReadIn f r st = Returns (Some e, f2, r2, st3)"
    unfolding ri using pos sp rf by simp
  then show ?thesis by blast
qed

section \<open>Growth on demand and headers below sixteen: supporting facts\<close>

lemma SizedPayload_growth:
  assumes "frame_wf st f"
    and "unat (PayloadSize (Header f)) \<le> MaxFramePayloadSize"
    and "cap (buffer f) < FrameHeaderSize + unat (PayloadSize (Header f))"
  shows "\<exists>k p f' st'.
           SizedPayload f st = Returns (p, f', st') \<and>
           cap (buffer f') = cap (buffer f) * 2 ^ k \<and>
           FrameHeaderSize + unat (PayloadSize (Header f)) \<le> cap (buffer f') \<and>
           (\<forall>j<k. cap (buffer f) * 2 ^ j < FrameHeaderSize + unat (PayloadSize (Header f))) \<and>
           st' = st @ [bytes_of st (buffer f) @ replicate (cap (buffer f') - cap (buffer f)) 0] \<and>
           buffer f' = \<lparr>arr = length st, off = 0, len = cap (buffer f'), cap = cap (buffer f')\<rparr> \<and>
           headerBuffer f' = \<lparr>arr = length st, off = 0, len = 16, cap = cap (buffer f')\<rparr> \<and>
           Payload f' = \<lparr>arr = length st, off = 16, len = cap (buffer f') - 16,
                          cap = cap (buffer f') - 16\<rparr> \<and>
           p = \<lparr>arr = length st, off = 16, len = unat (PayloadSize (Header f)),
                 cap = cap (buffer f') - 16\<rparr> \<and>
           Header f' = Header f \<and>
           frame_wf st' f' \<and>
           bytes_of st' (headerBuffer f') = bytes_of st (headerBuffer f) \<and>
           take (cap (buffer f)) (bytes_of st' (buffer f')) = bytes_of st (buffer f)"
proof -
  let ?c = "cap (buffer f)" and ?n = "unat (size_fh (Header f))"
  have s16: "16 \<le> ?n"
    using assms(2) by (simp add: PayloadSize_bound_iff)
  then have ps: "unat (PayloadSize (Header f)) = ?n - 16"
    by (simp add: unat_PayloadSize)
  have lt: "?c < ?n"
    using assms(3) s16 ps by (simp add: FrameHeaderSize_def)
  from SizedPayload_grows[OF assms(1) lt] obtain k where
    sp: "SizedPayload f st =
           Returns (\<lparr>arr = length st, off = 16, len = unat (PayloadSize (Header f)),
                      cap = ?c * 2 ^ k - 16\<rparr>,
                    f\<lparr>buffer := \<lparr>arr = length st, off = 0, len = ?c * 2 ^ k, cap = ?c * 2 ^ k\<rparr>,
                      Payload := \<lparr>arr = length st, off = 16, len = ?c * 2 ^ k - 16, cap = ?c * 2 ^ k - 16\<rparr>,
                      headerBuffer := \<lparr>arr = length st, off = 0, len = 16, cap = ?c * 2 ^ k\<rparr>\<rparr>,
                    st @ [st ! arr (buffer f) @ replicate (?c * 2 ^ k - ?c) 0])"
    and fit: "?n \<le> ?c * 2 ^ k" and least: "\<forall>j<k. ?c * 2 ^ j < ?n"
    by blast
  let ?f' = "f\<lparr>buffer := \<lparr>arr = length st, off = 0, len = ?c * 2 ^ k, cap = ?c * 2 ^ k\<rparr>,
                      Payload := \<lparr>arr = length st, off = 16, len = ?c * 2 ^ k - 16, cap = ?c * 2 ^ k - 16\<rparr>,
                      headerBuffer := \<lparr>arr = length st, off = 0, len = 16, cap = ?c * 2 ^ k\<rparr>\<rparr>"
  let ?st' = "st @ [st ! arr (buffer f) @ replicate (?c * 2 ^ k - ?c) 0]"
  have ge: "?c \<le> ?c * 2 ^ k" by simp
  have wf': "frame_wf ?st' ?f'"
    by (rule frame_wf_grown[OF assms(1) ge])
  have whole: "bytes_of st (buffer f) = st ! arr (buffer f)"
    and l: "length (st ! arr (buffer f)) = ?c" and c16: "16 \<le> ?c"
    using assms(1) by (simp_all add: bytes_of_def frame_wf_def)
  have hb: "bytes_of ?st' (headerBuffer ?f') = bytes_of st (headerBuffer f)"
    using assms(1) l c16 by (simp add: bytes_of_def frame_wf_def)
  have pre: "take ?c (bytes_of ?st' (buffer ?f')) = bytes_of st (buffer f)"
    unfolding whole using l by (simp add: bytes_of_def)
  have n: "FrameHeaderSize + unat (PayloadSize (Header f)) = ?n"
    using s16 ps by (simp add: FrameHeaderSize_def)
  show ?thesis
    unfolding n
    apply (rule exI[of _ k])
    apply (rule exI[of _ "\<lparr>arr = length st, off = 16, len = unat (PayloadSize (Header f)), cap = ?c * 2 ^ k - 16\<rparr>"])
    apply (rule exI[of _ ?f'])
    apply (rule exI[of _ ?st'])
    using sp fit least wf' hb pre whole
    apply simp
    done
qed

lemma Frame_write_bytes_full_frame:
  assumes "frame_wf st f" "len (Payload f) < length (concat cs)"
  shows "fst (snd (Frame_write f (bytes_message i m cs) st)) = f"
proof -
  let ?res = "fold (\<lambda>c (w, st). WriteBytes c w st) cs (WriteBuffer_Wrap (Payload f), st)"
  have "wb_err (fst ?res) = Some ErrBufferFull"
    using assms by (intro fold_WriteBytes_full) (auto simp: WriteBuffer_Wrap_def frame_wf_Payload_ok)
  then have "fst (write_chunks cs (WriteBuffer_Wrap (Payload f)) st) = Some ErrBufferFull"
    by (auto simp: write_chunks_def split: prod.splits)
  then obtain w' st' where
    "write_chunks cs (WriteBuffer_Wrap (Payload f)) st = (Some ErrBufferFull, w', st')"
    by (cases "write_chunks cs (WriteBuffer_Wrap (Payload f)) st") auto
  then show ?thesis
    by (simp add: Frame_write_def bytes_message_def)
qed

text \<open>
  A header whose size field is below sixteen on the wire: \<open>PayloadSize()\<close> wraps to
  \<open>size + 65520\<close>, the 16-bit sum \<open>FrameHeaderSize + PayloadSize()\<close> is the size field
  again, and a \<open>ReadIn\<close> that returns has kept the buffer it had.
\<close>

lemma ReadIn_undersized_header:
  assumes wf: "frame_wf st f" and q: "quiet r" and n: "16 \<le> length (stream_bytes r)"
    and s: "unat (Uint16 (take 2 (stream_bytes r))) < 16"
    and h1: "h1 = (Header f)\<lparr>size_fh := Uint16 (take 2 (stream_bytes r)),
                              messageType := stream_bytes r ! 2,
                              reserved1 := stream_bytes r ! 3,
                              ID := Uint32 (take 4 (drop 4 (stream_bytes r)))\<rparr>"
  shows "unat (PayloadSize h1) = unat (size_fh h1) + 65520 \<and>
         65520 \<le> unat (PayloadSize h1) \<and>
         unat ((FrameHeaderSize :: uint16) + PayloadSize h1) = unat (size_fh h1) \<and>
         (\<forall>e f' r' st'. ReadIn f r st = Returns (e, f', r', st') \<longrightarrow>
            Header f' = h1 \<and> buffer f' = buffer f \<and> headerBuffer f' = headerBuffer f \<and>
            Payload f' = Payload f \<and> length st' = length st) \<and>
         (unat (PayloadSize h1) \<le> cap (buffer f) - 16 \<and>
          16 + unat (PayloadSize h1) \<le> length (stream_bytes r) \<longrightarrow>
            (\<exists>f' r' st'. ReadIn f r st = Returns (None, f', r', st') \<and>
               bytes_of st' \<lparr>arr = arr (buffer f), off = 16, len = unat (PayloadSize h1),
                              cap = cap (buffer f) - 16\<rparr>
                 = take (unat (PayloadSize h1)) (drop 16 (stream_bytes r))))"
proof -
  let ?sb = "stream_bytes r"
  define st1 where "st1 = st[arr (buffer f) := splice (st ! arr (buffer f)) 0 (take 16 ?sb)]"
  let ?f1 = "f\<lparr>Header := h1\<rparr>"
  let ?ps = "unat (PayloadSize h1)"
  let ?pv = "\<lparr>arr = arr (buffer f), off = 16, len = ?ps, cap = cap (buffer f) - 16\<rparr>"
  have s1: "unat (size_fh h1) < 16"
    using s by (simp add: h1)
  have A: "?ps = unat (size_fh h1) + 65520"
    using s1 by (simp add: unat_PayloadSize)
  have B: "unat ((FrameHeaderSize :: uint16) + PayloadSize h1) = unat (size_fh h1)"
    by (simp add: needed_eq_size)
  have pos: "0 < PayloadSize h1"
    using A by (simp add: word_less_nat_alt)
  from ReadIn_quiet_header[OF wf q n] obtain r1 where
    q1: "quiet r1" and sb1: "stream_bytes r1 = drop 16 ?sb" and wf1: "frame_wf st1 ?f1"
    and ri: "ReadIn f r st =
             (if 0 < PayloadSize (Header ?f1)
              then (case SizedPayload ?f1 st1 of
                      Returns (p, f2, st2) \<Rightarrow>
                        (case ReadFull r1 p st2 of ((k, err), r2, st3) \<Rightarrow> Returns (err, f2, r2, st3))
                    | Panics \<Rightarrow> Panics
                    | Diverges \<Rightarrow> Diverges)
              else Returns (None, ?f1, r1, st1))"
    unfolding h1 st1_def by blast
  have l1: "length st1 = length st"
    by (simp add: st1_def)
  have sp: "SizedPayload ?f1 st1 =
              (if ?ps \<le> cap (buffer f) - 16 then Returns (?pv, ?f1, st1) else Panics)"
    using SizedPayload_undersized[OF wf1] s1 by simp
  have C: "Header f' = h1 \<and> buffer f' = buffer f \<and> headerBuffer f' = headerBuffer f \<and>
            Payload f' = Payload f \<and> length st' = length st"
    if ret: "ReadIn f r st = Returns (e, f', r', st')" for e f' r' st'
  proof (cases "?ps \<le> cap (buffer f) - 16")
    case True
    obtain k e2 r2 data where rf: "ReadFull r1 ?pv st1 = ((k, e2), r2, copy_bytes ?pv data st1)"
      using ReadFull_shape by blast
    from ret have "f' = ?f1 \<and> st' = copy_bytes ?pv data st1"
      unfolding ri using pos True by (simp add: sp rf)
    then show ?thesis
      by (simp add: length_copy_bytes l1)
  next
    case False
    with ret show ?thesis
      unfolding ri using pos by (simp add: sp l1)
  qed
  have D: "\<exists>f' r' st'. ReadIn f r st = Returns (None, f', r', st') \<and>
               bytes_of st' ?pv = take ?ps (drop 16 ?sb)"
    if room': "?ps \<le> cap (buffer f) - 16 \<and> 16 + ?ps \<le> length ?sb"
  proof -
    from room' have room: "?ps \<le> cap (buffer f) - 16" "16 + ?ps \<le> length ?sb"
      by simp_all
    let ?A = "arr (buffer f)"
    have la: "length (st1 ! ?A) = cap (buffer f)" "?A < length st1" "16 \<le> cap (buffer f)"
      using wf1 by (simp_all add: frame_wf_def)
    have okp: "slice_ok st1 ?pv"
      using la room by (simp add: slice_ok_def)
    have enough: "len ?pv \<le> length (stream_bytes r1)"
      using room by (simp add: sb1)
    from ReadFull_quiet[OF q1 enough okp] obtain r2 where
      rf: "ReadFull r1 ?pv st1 =
             ((?ps, None), r2, st1[?A := splice (st1 ! ?A) 16 (take ?ps (drop 16 ?sb))])"
      by (auto simp: sb1)
    let ?st3 = "st1[?A := splice (st1 ! ?A) 16 (take ?ps (drop 16 ?sb))]"
    have res: "ReadIn f r st = Returns (None, ?f1, r2, ?st3)"
      unfolding ri using pos room by (simp add: sp rf)
    have lt: "length (take ?ps (drop 16 ?sb)) = ?ps"
      using room by simp
    have "bytes_of ?st3 ?pv = take ?ps (drop 16 ?sb)"
      using la room lt take_drop_splice[of 16 "take ?ps (drop 16 ?sb)" "st1 ! ?A"]
      by (simp add: bytes_of_def)
    with res show ?thesis by blast
  qed
  have E: "65520 \<le> ?ps"
    using A by simp
  have C': "\<forall>e f' r' st'. ReadIn f r st = Returns (e, f', r', st') \<longrightarrow>
            Header f' = h1 \<and> buffer f' = buffer f \<and> headerBuffer f' = headerBuffer f \<and>
            Payload f' = Payload f \<and> length st' = length st"
    using C by blast
  have D': "?ps \<le> cap (buffer f) - 16 \<and> 16 + ?ps \<le> length ?sb \<longrightarrow>
            (\<exists>f' r' st'. ReadIn f r st = Returns (None, f', r', st') \<and>
               bytes_of st' ?pv = take ?ps (drop 16 ?sb))"
    using D by blast
  from A E B C' D' show ?thesis
    by (intro conjI)
qed

section \<open>The claims\<close>

subsection \<open>C1: a frame written out and read in again\<close>

text \<open>
  C1. For every frame whose header fields and payload bytes were set by a successful
  encode (message type \<open>m\<close>, ID \<open>i\<close>, payload \<open>p\<close> of length \<open>L\<close> with
  \<open>0 < L \<le> 65519\<close>): \<open>WriteOut\<close> into an in-memory byte sink, and then \<open>ReadIn\<close> of a fresh
  frame on a stream that delivers exactly those bytes (in runs of any lengths), succeeds
  and yields a frame whose message type is \<open>m\<close>, whose ID is \<open>i\<close>, and whose sized payload
  holds the bytes \<open>p\<close>.
\<close>

theorem WriteOut_ReadIn_roundtrip:
  assumes wf: "frame_wf st f"
    and fw: "Frame_write f (bytes_message i m cs) st = (None, f1, st1)"
    and L: "0 < length (concat cs)" "length (concat cs) \<le> MaxFramePayloadSize"
  shows "\<exists>out st2.
           WriteOut f1 sink_Write [] st1 = Returns (None, out, st2) \<and>
           length out = FrameHeaderSize + length (concat cs) \<and>
           (\<forall>r stn. quiet r \<and> stream_bytes r = out \<longrightarrow>
              (\<exists>g stg g' r' st' pv.
                 NewFrame stn = Returns (g, stg) \<and>
                 ReadIn g r stg = Returns (None, g', r', st') \<and>
                 messageType (Header g') = m \<and> ID (Header g') = i \<and>
                 unat (PayloadSize (Header g')) = length (concat cs) \<and>
                 SizedPayload g' st' = Returns (pv, g', st') \<and>
                 bytes_of st' pv = concat cs))"
proof -
  let ?p = "concat cs"
  have L': "length ?p \<le> 65519"
    using L by (simp add: MaxFramePayloadSize_def MaxFrameSize_def FrameHeaderSize_def)
  note e = encode_then_WriteOut[OF wf fw L']
  from e(1)[of "[]"] obtain st2 where
    wo: "WriteOut f1 sink_Write [] st1 = Returns (None, header_bytes (Header f1) @ ?p, st2)"
    by auto
  have ul: "unat (of_nat (length ?p) :: uint16) = length ?p"
    using L' by (simp add: unat_of_nat)
  have rd: "\<exists>g stg g' r' st' pv.
                 NewFrame stn = Returns (g, stg) \<and>
                 ReadIn g r stg = Returns (None, g', r', st') \<and>
                 messageType (Header g') = m \<and> ID (Header g') = i \<and>
                 unat (PayloadSize (Header g')) = length ?p \<and>
                 SizedPayload g' st' = Returns (pv, g', st') \<and>
                 bytes_of st' pv = ?p"
    if r: "quiet r \<and> stream_bytes r = header_bytes (Header f1) @ ?p" for r stn
  proof -
    obtain g stg where nf: "NewFrame stn = Returns (g, stg)"
      by (simp add: NewFrame_ok)
    then have wfg: "frame_wf stg g"
      by (rule NewFrame_wf)
    from ReadIn_frame_bytes[OF wfg _ _ e(2) L(1) L'] r obtain g' r' st' pv where
      x: "ReadIn g r stg = Returns (None, g', r', st')"
         "Header g' = (Header g)\<lparr>size_fh := size_fh (Header f1), messageType := messageType (Header f1),
                                  reserved1 := reserved1 (Header f1), ID := ID (Header f1)\<rparr>"
         "SizedPayload g' st' = Returns (pv, g', st')" "bytes_of st' pv = ?p"
      by blast
    have "unat (PayloadSize (Header g')) = length ?p"
      by (simp add: x(2) PayloadSize_def e(2) FrameHeaderSize_def ul)
    with nf x e(3,4) show ?thesis
      by (intro exI[of _ g] exI[of _ stg] exI[of _ g'] exI[of _ r'] exI[of _ st'] exI[of _ pv]) simp
  qed
  show ?thesis
    apply (rule exI[of _ "header_bytes (Header f1) @ ?p"])
    apply (rule exI[of _ st2])
    using wo rd by (simp add: length_header_bytes FrameHeaderSize_def)
qed

theorem WriteOut_ReadIn_roundtrip_witness:
  "\<exists>f st f1 st1.
     NewFrame [] = Returns (f, st) \<and> frame_wf st f \<and>
     Frame_write f (bytes_message 42 7 [replicate 100 171]) st = (None, f1, st1) \<and>
     0 < length (concat [replicate 100 (171 :: byte)]) \<and>
     length (concat [replicate 100 (171 :: byte)]) \<le> MaxFramePayloadSize \<and>
     (\<exists>out st2.
        WriteOut f1 sink_Write [] st1 = Returns (None, out, st2) \<and> length out = 116 \<and>
        (\<exists>g stg g' r' st' pv.
           NewFrame [] = Returns (g, stg) \<and>
           ReadIn g (map (\<lambda>b. ([b], None)) out) stg = Returns (None, g', r', st') \<and>
           messageType (Header g') = 7 \<and> ID (Header g') = 42 \<and>
           unat (PayloadSize (Header g')) = 100 \<and>
           SizedPayload g' st' = Returns (pv, g', st') \<and>
           bytes_of st' pv = replicate 100 171))"
proof -
  let ?cs = "[replicate 100 (171 :: byte)]"
  obtain f st where nf: "NewFrame [] = Returns (f, st)"
    by (simp add: NewFrame_ok)
  then have wf: "frame_wf st f"
    by (rule NewFrame_wf)
  have "len (Payload f) = 1008"
    using nf by (auto simp: NewFrame_ok)
  then have fit: "length (concat ?cs) \<le> len (Payload f)"
    by simp
  obtain f1 st1 where fw: "Frame_write f (bytes_message 42 7 ?cs) st = (None, f1, st1)"
    using Frame_write_bytes_ok[OF wf fit] by blast
  have 1: "0 < length (concat ?cs)"
    by simp
  have 2: "length (concat ?cs) \<le> MaxFramePayloadSize"
    by (simp add: MaxFramePayloadSize_def MaxFrameSize_def FrameHeaderSize_def)
  from WriteOut_ReadIn_roundtrip[OF wf fw 1 2] obtain out st2 where
    wo: "WriteOut f1 sink_Write [] st1 = Returns (None, out, st2)"
    and lo: "length out = FrameHeaderSize + length (concat ?cs)"
    and rd: "\<And>r stn. quiet r \<Longrightarrow> stream_bytes r = out \<Longrightarrow>
              (\<exists>g stg g' r' st' pv.
                 NewFrame stn = Returns (g, stg) \<and>
                 ReadIn g r stg = Returns (None, g', r', st') \<and>
                 messageType (Header g') = 7 \<and> ID (Header g') = 42 \<and>
                 unat (PayloadSize (Header g')) = length (concat ?cs) \<and>
                 SizedPayload g' st' = Returns (pv, g', st') \<and>
                 bytes_of st' pv = concat ?cs)"
    by blast
  from rd[OF quiet_bytewise stream_bytes_bytewise, of "[]"] obtain g stg g' r' st' pv where
    x: "NewFrame [] = Returns (g, stg)"
       "ReadIn g (map (\<lambda>b. ([b], None)) out) stg = Returns (None, g', r', st')"
       "messageType (Header g') = 7" "ID (Header g') = 42"
       "unat (PayloadSize (Header g')) = length (concat ?cs)"
       "SizedPayload g' st' = Returns (pv, g', st')"
       "bytes_of st' pv = concat ?cs"
    by blast
  have lo': "length out = 116"
    using lo by (simp add: FrameHeaderSize_def)
  have x5: "unat (PayloadSize (Header g')) = 100" and x7: "bytes_of st' pv = replicate 100 171"
    using x(5,7) by simp_all
  from nf wf fw 1 2 wo lo' x(1-4) x5 x(6) x7 show ?thesis
    by blast
qed

subsection \<open>C2: a header written and read back\<close>

text \<open>
  C2. For every message type (a byte), every ID (32 bits) and every payload length
  \<open>L\<close> from 0 to 65519: writing a header with those values and \<open>size = L + 16\<close> to a
  16-byte buffer and reading a header back from those 16 bytes gives a header with the
  same message type, the same ID, and \<open>PayloadSize() = L\<close>.
\<close>

theorem header_write_read_roundtrip:
  assumes "L \<le> MaxFramePayloadSize" "slice_ok st b" "len b = 16"
    and "h = SetPayloadSize (of_nat L) (fh\<lparr>messageType := m, ID := i\<rparr>)"
  shows "\<exists>w st' h' r.
           FrameHeader_write h (WriteBuffer_Wrap b) st = (None, w, st') \<and>
           FrameHeader_read fh' (ReadBuffer_Wrap b) st' = (None, h', r) \<and>
           messageType h' = m \<and> ID h' = i \<and> unat (PayloadSize h') = L"
proof -
  let ?st' = "st[arr b := splice (st ! arr b) (off b) (header_bytes h)]"
  note w = write_then_bytes[OF assms(2,3), of h]
  have L: "unat (of_nat L :: uint16) = L"
    using assms(1) by (simp add: unat_of_nat MaxFramePayloadSize_def MaxFrameSize_def FrameHeaderSize_def)
  have rd: "FrameHeader_read fh' (ReadBuffer_Wrap b) ?st' =
      (None,
       fh'\<lparr>size_fh := size_fh h, messageType := messageType h, reserved1 := reserved1 h, ID := ID h\<rparr>,
       (ReadBuffer_Wrap b)\<lparr>rb_remaining := \<lparr>arr = arr b, off = off b + 16, len = len b - 16, cap = cap b - 16\<rparr>\<rparr>)"
    using w(2) assms(3) header_bytes_decode[of h "[]"]
    by (subst FrameHeader_read_ok) (auto simp: ReadBuffer_Wrap_def w(3))
  have "PayloadSize (fh'\<lparr>size_fh := size_fh h, messageType := messageType h, reserved1 := reserved1 h, ID := ID h\<rparr>) = of_nat L"
    using assms(4) by (simp add: PayloadSize_def SetPayloadSize_def)
  with L w(1) rd assms(4) show ?thesis
    by (simp add: SetPayloadSize_def)
qed

theorem header_write_read_roundtrip_witness:
  "(65519::nat) \<le> MaxFramePayloadSize \<and>
   slice_ok [replicate 16 0] \<lparr>arr = 0, off = 0, len = 16, cap = 16\<rparr> \<and>
   len \<lparr>arr = 0, off = 0, len = 16, cap = 16\<rparr> = 16 \<and>
   (\<exists>w st' h' r.
      FrameHeader_write (SetPayloadSize (of_nat 65519) (zero_FrameHeader\<lparr>messageType := 7, ID := 42\<rparr>))
        (WriteBuffer_Wrap \<lparr>arr = 0, off = 0, len = 16, cap = 16\<rparr>) [replicate 16 0] = (None, w, st') \<and>
      FrameHeader_read zero_FrameHeader (ReadBuffer_Wrap \<lparr>arr = 0, off = 0, len = 16, cap = 16\<rparr>) st' = (None, h', r) \<and>
      messageType h' = 7 \<and> ID h' = 42 \<and> unat (PayloadSize h') = 65519)"
proof -
  have 1: "(65519::nat) \<le> MaxFramePayloadSize"
    by (simp add: MaxFramePayloadSize_def MaxFrameSize_def FrameHeaderSize_def)
  have 2: "slice_ok [replicate 16 0] \<lparr>arr = 0, off = 0, len = 16, cap = 16\<rparr>"
    by (simp add: slice_ok_def)
  have 3: "len \<lparr>arr = 0, off = 0, len = 16, cap = 16\<rparr> = 16"
    by simp
  from header_write_read_roundtrip [OF 1 2 3 refl, where fh = zero_FrameHeader and m = 7 and i = 42
      and fh' = zero_FrameHeader] 1 2 3
  show ?thesis by blast
qed

subsection \<open>C3: the reserved bytes on write\<close>

text \<open>
  C3 (as amended). The header write operation serializes byte 3 from the field
  \<open>reserved1\<close> and bytes 8 to 15 from the field \<open>reserved\<close>, as the in-memory header holds
  them, so these bytes are zero when the fields are zero. The header read operation
  stores wire byte 3 in \<open>reserved1\<close> and leaves \<open>reserved\<close> as it was.
\<close>

theorem header_write_reserved_as_held:
  assumes "slice_ok st b" "len b = 16"
  shows "(\<exists>w st'. FrameHeader_write h (WriteBuffer_Wrap b) st = (None, w, st') \<and>
            bytes_of st' b ! 3 = reserved1 h \<and>
            drop 8 (bytes_of st' b) = reserved_bytes (reserved h)) \<and>
         (\<exists>h' r. FrameHeader_read h (ReadBuffer_Wrap b) st = (None, h', r) \<and>
            reserved1 h' = bytes_of st b ! 3 \<and> reserved h' = reserved h)"
proof -
  note w = write_then_bytes[OF assms, of h]
  have "FrameHeader_read h (ReadBuffer_Wrap b) st =
      (None,
       h\<lparr>size_fh := Uint16 (take 2 (bytes_of st b)), messageType := bytes_of st b ! 2,
         reserved1 := bytes_of st b ! 3, ID := Uint32 (take 4 (drop 4 (bytes_of st b)))\<rparr>,
       (ReadBuffer_Wrap b)\<lparr>rb_remaining := \<lparr>arr = arr b, off = off b + 16, len = len b - 16, cap = cap b - 16\<rparr>\<rparr>)"
    using assms by (subst FrameHeader_read_ok) (auto simp: ReadBuffer_Wrap_def)
  with w show ?thesis
    by (simp add: header_bytes_reserved)
qed

theorem header_write_reserved_as_held_witness:
  "slice_ok [replicate 16 0] \<lparr>arr = 0, off = 0, len = 16, cap = 16\<rparr> \<and>
   len \<lparr>arr = 0, off = 0, len = 16, cap = 16\<rparr> = 16 \<and>
   (\<exists>w st'. FrameHeader_write zero_FrameHeader
                (WriteBuffer_Wrap \<lparr>arr = 0, off = 0, len = 16, cap = 16\<rparr>) [replicate 16 0] = (None, w, st') \<and>
            bytes_of st' \<lparr>arr = 0, off = 0, len = 16, cap = 16\<rparr> ! 3 = 0 \<and>
            drop 8 (bytes_of st' \<lparr>arr = 0, off = 0, len = 16, cap = 16\<rparr>) = [0, 0, 0, 0, 0, 0, 0, 0])"
proof -
  have 1: "slice_ok [replicate 16 0] \<lparr>arr = 0, off = 0, len = 16, cap = 16\<rparr>"
    by (simp add: slice_ok_def)
  have 2: "len \<lparr>arr = 0, off = 0, len = 16, cap = 16\<rparr> = 16"
    by simp
  from header_write_reserved_as_held [OF 1 2, of zero_FrameHeader] 1 2
  show ?thesis by (simp add: zero_FrameHeader_def)
qed

text \<open>
  Against C3 as the specification states it: a header read from wire bytes whose byte 3
  is 255 and then written to a second buffer puts 255 at byte 3, and a header whose
  \<open>reserved\<close> field holds 1 to 8 puts these at bytes 8 to 15.
\<close>

theorem header_write_reserved_counterexample:
  "bytes_of
     (snd (snd (FrameHeader_write
        (fst (snd (FrameHeader_read zero_FrameHeader
           (ReadBuffer_Wrap \<lparr>arr = 0, off = 0, len = 16, cap = 16\<rparr>)
           [[0, 16, 7, 255, 0, 0, 0, 42, 1, 1, 1, 1, 1, 1, 1, 1], replicate 16 0])))
        (WriteBuffer_Wrap \<lparr>arr = 1, off = 0, len = 16, cap = 16\<rparr>)
        [[0, 16, 7, 255, 0, 0, 0, 42, 1, 1, 1, 1, 1, 1, 1, 1], replicate 16 0])))
     \<lparr>arr = 1, off = 0, len = 16, cap = 16\<rparr> ! 3 = 255 \<and>
   drop 8 (bytes_of
     (snd (snd (FrameHeader_write
        (zero_FrameHeader\<lparr>reserved := Reserved8 1 2 3 4 5 6 7 8\<rparr>)
        (WriteBuffer_Wrap \<lparr>arr = 1, off = 0, len = 16, cap = 16\<rparr>)
        [[0, 16, 7, 255, 0, 0, 0, 42, 1, 1, 1, 1, 1, 1, 1, 1], replicate 16 0])))
     \<lparr>arr = 1, off = 0, len = 16, cap = 16\<rparr>) = [1, 2, 3, 4, 5, 6, 7, 8]"
proof -
  let ?st = "[[0, 16, 7, 255, 0, 0, 0, 42, 1, 1, 1, 1, 1, 1, 1, 1], replicate 16 0] :: store"
  let ?b0 = "\<lparr>arr = 0, off = 0, len = 16, cap = 16\<rparr>"
  let ?b1 = "\<lparr>arr = 1, off = 0, len = 16, cap = 16\<rparr>"
  have ok0: "slice_ok ?st ?b0" and ok1: "slice_ok ?st ?b1"
    by (simp_all add: slice_ok_def)
  obtain h r where rd: "FrameHeader_read zero_FrameHeader (ReadBuffer_Wrap ?b0) ?st = (None, h, r)"
    and r1: "reserved1 h = bytes_of ?st ?b0 ! 3"
    using FrameHeader_read_ok[of "ReadBuffer_Wrap ?b0" ?st zero_FrameHeader] ok0
    by (simp add: ReadBuffer_Wrap_def)
  have b3: "bytes_of ?st ?b0 ! 3 = 255"
    by (simp add: bytes_of_def)
  note w = write_then_bytes[OF ok1, of h]
  note w' = write_then_bytes[OF ok1, of "zero_FrameHeader\<lparr>reserved := Reserved8 1 2 3 4 5 6 7 8\<rparr>"]
  from w w' rd r1 b3 show ?thesis
    by (simp add: header_bytes_reserved)
qed

subsection \<open>C4: the bound on the payload length\<close>




subsection \<open>C5: reading from a stream that fails\<close>

text \<open>
  C5, at the input where the code departs from it. A fresh frame reads from a stream
  that delivers sixteen zero bytes and then ends: the header declares size 0, so
  \<open>PayloadSize()\<close> is 65520, the stream ends before any payload byte, and \<open>ReadIn\<close> does
  not return an error: \<open>SizedPayload\<close> panics on \<open>f.Payload[:65520]\<close> with a payload
  capacity of 1008.
\<close>

theorem ReadIn_zero_header_panics:
  "NewFrame [] =
     Returns (\<lparr>buffer = \<lparr>arr = 0, off = 0, len = 1024, cap = 1024\<rparr>,
               headerBuffer = \<lparr>arr = 0, off = 0, len = 16, cap = 1024\<rparr>,
               Header = zero_FrameHeader,
               Payload = \<lparr>arr = 0, off = 16, len = 1008, cap = 1008\<rparr>\<rparr>,
              [replicate 1024 0]) \<and>
   ReadIn \<lparr>buffer = \<lparr>arr = 0, off = 0, len = 1024, cap = 1024\<rparr>,
           headerBuffer = \<lparr>arr = 0, off = 0, len = 16, cap = 1024\<rparr>,
           Header = zero_FrameHeader,
           Payload = \<lparr>arr = 0, off = 16, len = 1008, cap = 1008\<rparr>\<rparr>
     [(replicate 16 0, None)] [replicate 1024 0]
     = Panics"
proof -
  let ?r = "[(replicate 16 0, None)] :: reader"
  let ?g = "\<lparr>buffer = \<lparr>arr = 0, off = 0, len = 1024, cap = 1024\<rparr>,
           headerBuffer = \<lparr>arr = 0, off = 0, len = 16, cap = 1024\<rparr>,
           Header = zero_FrameHeader,
           Payload = \<lparr>arr = 0, off = 16, len = 1008, cap = 1008\<rparr>\<rparr>"
  have nf: "NewFrame [] = Returns (?g, [replicate 1024 0])"
    by (simp add: NewFrame_ok)
  then have wf: "frame_wf [replicate 1024 0] ?g"
    by (rule NewFrame_wf)
  have c: "cap (buffer ?g) < 65536"
    by simp
  have q: "quiet ?r"
    by (simp add: quiet_def)
  have n: "16 \<le> length (stream_bytes ?r)"
    by (simp add: stream_bytes_def)
  have "Uint16 (take 2 (stream_bytes ?r)) = 0"
    by (simp add: stream_bytes_def Uint16_def)
  then have s: "unat (Uint16 (take 2 (stream_bytes ?r))) < 16"
    by simp
  from ReadIn_undersized_panics[OF wf q n s c] nf show ?thesis
    by blast
qed

subsection \<open>C6: growth of the buffer\<close>

text \<open>
  C6 (as amended). Whenever \<open>SizedPayload\<close> must make room for a declared payload of at
  most 65519 bytes that does not fit the current buffer capacity together with the
  header, the frame grows its buffer to the least capacity obtained by doubling the
  current capacity again and again until header and payload fit, copies all bytes of the
  old buffer into the prefix of the new one, and replaces the buffer and both views; in
  particular the 16 header bytes are the same after the growth. \<open>Frame.write\<close> never
  grows the buffer: an encoding larger than the current payload capacity fails with an
  error and leaves the frame as it was.
\<close>

theorem SizedPayload_grows_by_doubling:
  assumes "frame_wf st f"
  shows "(unat (PayloadSize (Header f)) \<le> MaxFramePayloadSize \<and>
          cap (buffer f) < FrameHeaderSize + unat (PayloadSize (Header f)) \<longrightarrow>
          (\<exists>k p f' st'.
             SizedPayload f st = Returns (p, f', st') \<and>
             cap (buffer f') = cap (buffer f) * 2 ^ k \<and>
             FrameHeaderSize + unat (PayloadSize (Header f)) \<le> cap (buffer f') \<and>
             (\<forall>j<k. cap (buffer f) * 2 ^ j < FrameHeaderSize + unat (PayloadSize (Header f))) \<and>
             st' = st @ [bytes_of st (buffer f) @ replicate (cap (buffer f') - cap (buffer f)) 0] \<and>
             buffer f' = \<lparr>arr = length st, off = 0, len = cap (buffer f'), cap = cap (buffer f')\<rparr> \<and>
             headerBuffer f' = \<lparr>arr = length st, off = 0, len = 16, cap = cap (buffer f')\<rparr> \<and>
             Payload f' = \<lparr>arr = length st, off = 16, len = cap (buffer f') - 16,
                            cap = cap (buffer f') - 16\<rparr> \<and>
             p = \<lparr>arr = length st, off = 16, len = unat (PayloadSize (Header f)),
                   cap = cap (buffer f') - 16\<rparr> \<and>
             Header f' = Header f \<and>
             frame_wf st' f' \<and>
             bytes_of st' (headerBuffer f') = bytes_of st (headerBuffer f) \<and>
             take (cap (buffer f)) (bytes_of st' (buffer f')) = bytes_of st (buffer f))) \<and>
         (len (Payload f) < length (concat cs) \<longrightarrow>
            fst (Frame_write f (bytes_message i m cs) st) = Some ErrBufferFull \<and>
            fst (snd (Frame_write f (bytes_message i m cs) st)) = f)"
proof (intro conjI impI)
  assume "unat (PayloadSize (Header f)) \<le> MaxFramePayloadSize \<and>
          cap (buffer f) < FrameHeaderSize + unat (PayloadSize (Header f))"
  then have "unat (PayloadSize (Header f)) \<le> MaxFramePayloadSize"
    and "cap (buffer f) < FrameHeaderSize + unat (PayloadSize (Header f))"
    by simp_all
  then show "\<exists>k p f' st'.
             SizedPayload f st = Returns (p, f', st') \<and>
             cap (buffer f') = cap (buffer f) * 2 ^ k \<and>
             FrameHeaderSize + unat (PayloadSize (Header f)) \<le> cap (buffer f') \<and>
             (\<forall>j<k. cap (buffer f) * 2 ^ j < FrameHeaderSize + unat (PayloadSize (Header f))) \<and>
             st' = st @ [bytes_of st (buffer f) @ replicate (cap (buffer f') - cap (buffer f)) 0] \<and>
             buffer f' = \<lparr>arr = length st, off = 0, len = cap (buffer f'), cap = cap (buffer f')\<rparr> \<and>
             headerBuffer f' = \<lparr>arr = length st, off = 0, len = 16, cap = cap (buffer f')\<rparr> \<and>
             Payload f' = \<lparr>arr = length st, off = 16, len = cap (buffer f') - 16,
                            cap = cap (buffer f') - 16\<rparr> \<and>
             p = \<lparr>arr = length st, off = 16, len = unat (PayloadSize (Header f)),
                   cap = cap (buffer f') - 16\<rparr> \<and>
             Header f' = Header f \<and>
             frame_wf st' f' \<and>
             bytes_of st' (headerBuffer f') = bytes_of st (headerBuffer f) \<and>
             take (cap (buffer f)) (bytes_of st' (buffer f')) = bytes_of st (buffer f)"
    by (rule SizedPayload_growth[OF assms])
next
  assume big: "len (Payload f) < length (concat cs)"
  show "fst (Frame_write f (bytes_message i m cs) st) = Some ErrBufferFull"
    by (rule Frame_write_bytes_full[OF assms big])
  show "fst (snd (Frame_write f (bytes_message i m cs) st)) = f"
    by (rule Frame_write_bytes_full_frame[OF assms big])
qed

theorem SizedPayload_grows_by_doubling_witness:
  "frame_wf [[1, 2, 3, 4, 5, 6, 7, 8, 9, 10, 11, 12, 13, 14, 15, 16, 17, 18, 19, 20]]
     \<lparr>buffer = \<lparr>arr = 0, off = 0, len = 20, cap = 20\<rparr>,
      headerBuffer = \<lparr>arr = 0, off = 0, len = 16, cap = 20\<rparr>,
      Header = SetPayloadSize 30 zero_FrameHeader,
      Payload = \<lparr>arr = 0, off = 16, len = 4, cap = 4\<rparr>\<rparr> \<and>
   unat (PayloadSize (SetPayloadSize 30 zero_FrameHeader)) \<le> MaxFramePayloadSize \<and>
   (20::nat) < FrameHeaderSize + unat (PayloadSize (SetPayloadSize 30 zero_FrameHeader)) \<and>
   SizedPayload
     \<lparr>buffer = \<lparr>arr = 0, off = 0, len = 20, cap = 20\<rparr>,
      headerBuffer = \<lparr>arr = 0, off = 0, len = 16, cap = 20\<rparr>,
      Header = SetPayloadSize 30 zero_FrameHeader,
      Payload = \<lparr>arr = 0, off = 16, len = 4, cap = 4\<rparr>\<rparr>
     [[1, 2, 3, 4, 5, 6, 7, 8, 9, 10, 11, 12, 13, 14, 15, 16, 17, 18, 19, 20]]
   = Returns
      (\<lparr>arr = 1, off = 16, len = 30, cap = 64\<rparr>,
       \<lparr>buffer = \<lparr>arr = 1, off = 0, len = 80, cap = 80\<rparr>,
        headerBuffer = \<lparr>arr = 1, off = 0, len = 16, cap = 80\<rparr>,
        Header = SetPayloadSize 30 zero_FrameHeader,
        Payload = \<lparr>arr = 1, off = 16, len = 64, cap = 64\<rparr>\<rparr>,
       [[1, 2, 3, 4, 5, 6, 7, 8, 9, 10, 11, 12, 13, 14, 15, 16, 17, 18, 19, 20],
        [1, 2, 3, 4, 5, 6, 7, 8, 9, 10, 11, 12, 13, 14, 15, 16, 17, 18, 19, 20] @ replicate 60 0]) \<and>
   (4::nat) < length (concat [[1, 2, 3], [4, 5 :: byte]]) \<and>
   fst (Frame_write
     \<lparr>buffer = \<lparr>arr = 0, off = 0, len = 20, cap = 20\<rparr>,
      headerBuffer = \<lparr>arr = 0, off = 0, len = 16, cap = 20\<rparr>,
      Header = SetPayloadSize 30 zero_FrameHeader,
      Payload = \<lparr>arr = 0, off = 16, len = 4, cap = 4\<rparr>\<rparr>
     (bytes_message 42 7 [[1, 2, 3], [4, 5]])
     [[1, 2, 3, 4, 5, 6, 7, 8, 9, 10, 11, 12, 13, 14, 15, 16, 17, 18, 19, 20]]) = Some ErrBufferFull \<and>
   fst (snd (Frame_write
     \<lparr>buffer = \<lparr>arr = 0, off = 0, len = 20, cap = 20\<rparr>,
      headerBuffer = \<lparr>arr = 0, off = 0, len = 16, cap = 20\<rparr>,
      Header = SetPayloadSize 30 zero_FrameHeader,
      Payload = \<lparr>arr = 0, off = 16, len = 4, cap = 4\<rparr>\<rparr>
     (bytes_message 42 7 [[1, 2, 3], [4, 5]])
     [[1, 2, 3, 4, 5, 6, 7, 8, 9, 10, 11, 12, 13, 14, 15, 16, 17, 18, 19, 20]]))
   = \<lparr>buffer = \<lparr>arr = 0, off = 0, len = 20, cap = 20\<rparr>,
      headerBuffer = \<lparr>arr = 0, off = 0, len = 16, cap = 20\<rparr>,
      Header = SetPayloadSize 30 zero_FrameHeader,
      Payload = \<lparr>arr = 0, off = 16, len = 4, cap = 4\<rparr>\<rparr>"
proof -
  let ?st = "[[1, 2, 3, 4, 5, 6, 7, 8, 9, 10, 11, 12, 13, 14, 15, 16, 17, 18, 19, 20]] :: store"
  let ?f = "\<lparr>buffer = \<lparr>arr = 0, off = 0, len = 20, cap = 20\<rparr>,
      headerBuffer = \<lparr>arr = 0, off = 0, len = 16, cap = 20\<rparr>,
      Header = SetPayloadSize 30 zero_FrameHeader,
      Payload = \<lparr>arr = 0, off = 16, len = 4, cap = 4\<rparr>\<rparr>"
  have ps: "unat (PayloadSize (SetPayloadSize 30 zero_FrameHeader)) = 30"
    by (simp add: PayloadSize_def SetPayloadSize_def)
  have 1: "frame_wf ?st ?f"
    by (simp add: frame_wf_def)
  have 2: "unat (PayloadSize (Header ?f)) \<le> MaxFramePayloadSize"
    by (simp add: ps MaxFramePayloadSize_def MaxFrameSize_def FrameHeaderSize_def)
  have 3: "cap (buffer ?f) < FrameHeaderSize + unat (PayloadSize (Header ?f))"
    by (simp add: ps FrameHeaderSize_def)
  have 4: "len (Payload ?f) < length (concat [[1, 2, 3], [4, 5 :: byte]])"
    by simp
  note t = SizedPayload_grows_by_doubling[OF 1, of "[[1, 2, 3], [4, 5]]" 42 7]
  from t 4 have 5: "fst (Frame_write ?f (bytes_message 42 7 [[1, 2, 3], [4, 5]]) ?st) = Some ErrBufferFull"
    and 6: "fst (snd (Frame_write ?f (bytes_message 42 7 [[1, 2, 3], [4, 5]]) ?st)) = ?f"
    by blast+
  from t 2 3 obtain k p f' st' where
    r: "SizedPayload ?f ?st = Returns (p, f', st')"
      "cap (buffer f') = 20 * 2 ^ k" "46 \<le> cap (buffer f')" "\<forall>j<k. (20::nat) * 2 ^ j < 46"
      "st' = ?st @ [bytes_of ?st (buffer ?f) @ replicate (cap (buffer f') - 20) 0]"
      "buffer f' = \<lparr>arr = 1, off = 0, len = cap (buffer f'), cap = cap (buffer f')\<rparr>"
      "headerBuffer f' = \<lparr>arr = 1, off = 0, len = 16, cap = cap (buffer f')\<rparr>"
      "Payload f' = \<lparr>arr = 1, off = 16, len = cap (buffer f') - 16, cap = cap (buffer f') - 16\<rparr>"
      "p = \<lparr>arr = 1, off = 16, len = 30, cap = cap (buffer f') - 16\<rparr>"
      "Header f' = Header ?f"
    by (auto simp: ps FrameHeaderSize_def)
  have "k = 2"
  proof -
    have "\<not> k < 2"
    proof
      assume "k < 2"
      then consider "k = 0" | "k = 1" by fastforce
      then show False using r(2,3) by cases auto
    qed
    moreover have "\<not> 2 < k"
      using r(4) by (auto dest: spec[of _ 2])
    ultimately show ?thesis by simp
  qed
  with r have "cap (buffer f') = 80" by simp
  with r have "f' = \<lparr>buffer = \<lparr>arr = 1, off = 0, len = 80, cap = 80\<rparr>,
        headerBuffer = \<lparr>arr = 1, off = 0, len = 16, cap = 80\<rparr>,
        Header = SetPayloadSize 30 zero_FrameHeader,
        Payload = \<lparr>arr = 1, off = 16, len = 64, cap = 64\<rparr>\<rparr>"
    by (cases f') simp
  with r \<open>cap (buffer f') = 80\<close> 1 2 3 have
    "frame_wf ?st ?f \<and>
     unat (PayloadSize (SetPayloadSize 30 zero_FrameHeader)) \<le> MaxFramePayloadSize \<and>
     (20::nat) < FrameHeaderSize + unat (PayloadSize (SetPayloadSize 30 zero_FrameHeader)) \<and>
     SizedPayload ?f ?st
       = Returns
          (\<lparr>arr = 1, off = 16, len = 30, cap = 64\<rparr>,
           \<lparr>buffer = \<lparr>arr = 1, off = 0, len = 80, cap = 80\<rparr>,
            headerBuffer = \<lparr>arr = 1, off = 0, len = 16, cap = 80\<rparr>,
            Header = SetPayloadSize 30 zero_FrameHeader,
            Payload = \<lparr>arr = 1, off = 16, len = 64, cap = 64\<rparr>\<rparr>,
           [[1, 2, 3, 4, 5, 6, 7, 8, 9, 10, 11, 12, 13, 14, 15, 16, 17, 18, 19, 20],
            [1, 2, 3, 4, 5, 6, 7, 8, 9, 10, 11, 12, 13, 14, 15, 16, 17, 18, 19, 20] @ replicate 60 0])"
    by (simp add: bytes_of_def)
  moreover have "(4::nat) < length (concat [[1, 2, 3], [4, 5 :: byte]])"
    by simp
  ultimately show ?thesis
    using 5 6 by blast
qed

text \<open>
  Against C6 as the specification states it: a fresh frame (capacity 1024) asked to
  encode a message of 2000 bytes does not grow; \<open>Frame.write\<close> returns the error of the
  full buffer and the frame and its buffer are as they were.
\<close>

theorem SizedPayload_grows_by_doubling_counterexample:
  "NewFrame [] =
     Returns (\<lparr>buffer = \<lparr>arr = 0, off = 0, len = 1024, cap = 1024\<rparr>,
               headerBuffer = \<lparr>arr = 0, off = 0, len = 16, cap = 1024\<rparr>,
               Header = zero_FrameHeader,
               Payload = \<lparr>arr = 0, off = 16, len = 1008, cap = 1008\<rparr>\<rparr>,
              [replicate 1024 0]) \<and>
   length (concat [replicate 2000 (1 :: byte)]) = 2000 \<and>
   Frame_write \<lparr>buffer = \<lparr>arr = 0, off = 0, len = 1024, cap = 1024\<rparr>,
                headerBuffer = \<lparr>arr = 0, off = 0, len = 16, cap = 1024\<rparr>,
                Header = zero_FrameHeader,
                Payload = \<lparr>arr = 0, off = 16, len = 1008, cap = 1008\<rparr>\<rparr>
     (bytes_message 42 7 [replicate 2000 1]) [replicate 1024 0]
     = (Some ErrBufferFull,
        \<lparr>buffer = \<lparr>arr = 0, off = 0, len = 1024, cap = 1024\<rparr>,
         headerBuffer = \<lparr>arr = 0, off = 0, len = 16, cap = 1024\<rparr>,
         Header = zero_FrameHeader,
         Payload = \<lparr>arr = 0, off = 16, len = 1008, cap = 1008\<rparr>\<rparr>,
        [replicate 1024 0])"
proof -
  have "NewFrame [] =
     Returns (\<lparr>buffer = \<lparr>arr = 0, off = 0, len = 1024, cap = 1024\<rparr>,
               headerBuffer = \<lparr>arr = 0, off = 0, len = 16, cap = 1024\<rparr>,
               Header = zero_FrameHeader,
               Payload = \<lparr>arr = 0, off = 16, len = 1008, cap = 1008\<rparr>\<rparr>,
              [replicate 1024 0])"
    by (simp add: NewFrame_ok)
  moreover have "Frame_write \<lparr>buffer = \<lparr>arr = 0, off = 0, len = 1024, cap = 1024\<rparr>,
                headerBuffer = \<lparr>arr = 0, off = 0, len = 16, cap = 1024\<rparr>,
                Header = zero_FrameHeader,
                Payload = \<lparr>arr = 0, off = 16, len = 1008, cap = 1008\<rparr>\<rparr>
     (bytes_message 42 7 [replicate 2000 1]) [replicate 1024 0]
     = (Some ErrBufferFull,
        \<lparr>buffer = \<lparr>arr = 0, off = 0, len = 1024, cap = 1024\<rparr>,
         headerBuffer = \<lparr>arr = 0, off = 0, len = 16, cap = 1024\<rparr>,
         Header = zero_FrameHeader,
         Payload = \<lparr>arr = 0, off = 16, len = 1008, cap = 1008\<rparr>\<rparr>,
        [replicate 1024 0])"
    by (simp add: Frame_write_def bytes_message_def write_chunks_def WriteBytes_def
        WriteBuffer_Wrap_def)
  ultimately show ?thesis
    by simp
qed

subsection \<open>C7: payload size and frame size\<close>

text \<open>
  C7. For every payload length \<open>L\<close> from 0 to 65519, after \<open>SetPayloadSize(L)\<close> the
  header's \<open>PayloadSize()\<close> is \<open>L\<close> and its \<open>FrameSize()\<close> is \<open>L + 16\<close>:
  \<open>SetPayloadSize\<close> stores \<open>size = L + 16\<close>, \<open>PayloadSize\<close> returns \<open>size - 16\<close> and
  \<open>FrameSize\<close> returns \<open>size\<close>.
\<close>

theorem SetPayloadSize_PayloadSize_FrameSize:
  assumes "unat L \<le> MaxFramePayloadSize"
  shows "PayloadSize (SetPayloadSize L fh) = L \<and>
         unat (FrameSize (SetPayloadSize L fh)) = unat L + 16 \<and>
         size_fh (SetPayloadSize L fh) = L + 16 \<and>
         PayloadSize (SetPayloadSize L fh) = size_fh (SetPayloadSize L fh) - 16 \<and>
         FrameSize (SetPayloadSize L fh) = size_fh (SetPayloadSize L fh)"
proof -
  have "unat (L + 16) = unat L + 16"
    using assms unat_add_lem [of L 16]
    by (simp add: MaxFramePayloadSize_def MaxFrameSize_def FrameHeaderSize_def)
  then show ?thesis
    by (simp add: SetPayloadSize_def PayloadSize_def FrameSize_def FrameHeaderSize_def)
qed

theorem SetPayloadSize_PayloadSize_FrameSize_witness:
  "unat (65519 :: uint16) \<le> MaxFramePayloadSize \<and>
   PayloadSize (SetPayloadSize 65519 zero_FrameHeader) = 65519 \<and>
   unat (FrameSize (SetPayloadSize 65519 zero_FrameHeader)) = 65535"
proof -
  have h: "unat (65519 :: uint16) \<le> MaxFramePayloadSize"
    by (simp add: MaxFramePayloadSize_def MaxFrameSize_def FrameHeaderSize_def)
  from SetPayloadSize_PayloadSize_FrameSize [OF h, of zero_FrameHeader] h show ?thesis
    by simp
qed

subsection \<open>C9: headers with a size below sixteen\<close>

text \<open>
  C9, at the input where the code departs from it. A fresh frame reads a header with
  size 5 from a stream that has 70000 more bytes ready. No operation has rejected the
  header and \<open>PayloadSize()\<close> has wrapped to 65525, but \<open>ReadIn\<close> neither grows the buffer
  nor reads a payload: in \<open>SizedPayload\<close> the capacity needed is a 16-bit sum that wraps
  back to 5, and \<open>f.Payload[:65525]\<close> panics on a payload capacity of 1008.
\<close>

theorem ReadIn_size5_header_panics:
  "NewFrame [] =
     Returns (\<lparr>buffer = \<lparr>arr = 0, off = 0, len = 1024, cap = 1024\<rparr>,
               headerBuffer = \<lparr>arr = 0, off = 0, len = 16, cap = 1024\<rparr>,
               Header = zero_FrameHeader,
               Payload = \<lparr>arr = 0, off = 16, len = 1008, cap = 1008\<rparr>\<rparr>,
              [replicate 1024 0]) \<and>
   ReadIn \<lparr>buffer = \<lparr>arr = 0, off = 0, len = 1024, cap = 1024\<rparr>,
           headerBuffer = \<lparr>arr = 0, off = 0, len = 16, cap = 1024\<rparr>,
           Header = zero_FrameHeader,
           Payload = \<lparr>arr = 0, off = 16, len = 1008, cap = 1008\<rparr>\<rparr>
     [([0, 5, 7, 0, 0, 0, 0, 42, 0, 0, 0, 0, 0, 0, 0, 0], None), (replicate 70000 1, None)]
     [replicate 1024 0]
     = Panics"
proof -
  let ?r = "[([0, 5, 7, 0, 0, 0, 0, 42, 0, 0, 0, 0, 0, 0, 0, 0], None), (replicate 70000 1, None)] :: reader"
  let ?g = "\<lparr>buffer = \<lparr>arr = 0, off = 0, len = 1024, cap = 1024\<rparr>,
           headerBuffer = \<lparr>arr = 0, off = 0, len = 16, cap = 1024\<rparr>,
           Header = zero_FrameHeader,
           Payload = \<lparr>arr = 0, off = 16, len = 1008, cap = 1008\<rparr>\<rparr>"
  have nf: "NewFrame [] = Returns (?g, [replicate 1024 0])"
    by (simp add: NewFrame_ok)
  then have wf: "frame_wf [replicate 1024 0] ?g"
    by (rule NewFrame_wf)
  have c: "cap (buffer ?g) < 65536"
    by simp
  have q: "quiet ?r"
    by (simp add: quiet_def)
  have n: "16 \<le> length (stream_bytes ?r)"
    by (simp add: stream_bytes_def)
  have "Uint16 (take 2 (stream_bytes ?r)) = 5"
    by (simp add: stream_bytes_def Uint16_def)
  then have s: "unat (Uint16 (take 2 (stream_bytes ?r))) < 16"
    by simp
  from ReadIn_undersized_panics[OF wf q n s c] nf show ?thesis
    by blast
qed

subsection \<open>C10: a failed encode\<close>

text \<open>
  C10. For every message whose encode fails, \<open>Frame.write\<close> returns that error and leaves
  every field of the header (size, messageType, reserved1, ID, reserved) as it was
  before the call: the header fields are assigned only after a successful encode. This
  includes the encoding that does not fit the current payload capacity, which
  \<open>Frame.write\<close> never grows: the buffer and both views are unchanged as well, and only
  the payload bytes in the store may differ.
\<close>

theorem Frame_write_failure_keeps_header:
  "(msg_write msg (WriteBuffer_Wrap (Payload f)) st = (Some e, w, st') \<longrightarrow>
      Frame_write f msg st = (Some e, f, st') \<and>
      Header (fst (snd (Frame_write f msg st))) = Header f) \<and>
   (frame_wf st f \<and> len (Payload f) < length (concat cs) \<longrightarrow>
      fst (Frame_write f (bytes_message i m cs) st) = Some ErrBufferFull \<and>
      fst (snd (Frame_write f (bytes_message i m cs) st)) = f)"
proof (intro conjI impI)
  assume a: "msg_write msg (WriteBuffer_Wrap (Payload f)) st = (Some e, w, st')"
  then show 1: "Frame_write f msg st = (Some e, f, st')"
    by (simp add: Frame_write_def)
  then show "Header (fst (snd (Frame_write f msg st))) = Header f"
    by simp
next
  assume a: "frame_wf st f \<and> len (Payload f) < length (concat cs)"
  let ?res = "fold (\<lambda>c (w, st). WriteBytes c w st) cs (WriteBuffer_Wrap (Payload f), st)"
  have "wb_err (fst ?res) = Some ErrBufferFull"
    using a by (intro fold_WriteBytes_full) (auto simp: WriteBuffer_Wrap_def frame_wf_Payload_ok)
  then have e: "fst (write_chunks cs (WriteBuffer_Wrap (Payload f)) st) = Some ErrBufferFull"
    by (auto simp: write_chunks_def split: prod.splits)
  then obtain w' st' where
    wc: "write_chunks cs (WriteBuffer_Wrap (Payload f)) st = (Some ErrBufferFull, w', st')"
    by (cases "write_chunks cs (WriteBuffer_Wrap (Payload f)) st") auto
  then have fw: "Frame_write f (bytes_message i m cs) st = (Some ErrBufferFull, f, st')"
    by (simp add: Frame_write_def bytes_message_def)
  show "fst (Frame_write f (bytes_message i m cs) st) = Some ErrBufferFull"
    by (simp add: fw)
  show "fst (snd (Frame_write f (bytes_message i m cs) st)) = f"
    by (simp add: fw)
qed

theorem Frame_write_failure_keeps_header_witness:
  "msg_write (bytes_message 42 7 [[1, 2, 3], [4, 5]])
     (WriteBuffer_Wrap (Payload \<lparr>buffer = \<lparr>arr = 0, off = 0, len = 20, cap = 20\<rparr>,
        headerBuffer = \<lparr>arr = 0, off = 0, len = 16, cap = 20\<rparr>, Header = zero_FrameHeader,
        Payload = \<lparr>arr = 0, off = 16, len = 4, cap = 4\<rparr>\<rparr>)) [replicate 20 0]
     = (Some ErrBufferFull,
        \<lparr>wb_buffer = \<lparr>arr = 0, off = 16, len = 4, cap = 4\<rparr>,
         wb_remaining = \<lparr>arr = 0, off = 19, len = 1, cap = 1\<rparr>, wb_err = Some ErrBufferFull\<rparr>,
        [replicate 16 0 @ [1, 2, 3, 0]]) \<and>
   frame_wf [replicate 20 0] \<lparr>buffer = \<lparr>arr = 0, off = 0, len = 20, cap = 20\<rparr>,
        headerBuffer = \<lparr>arr = 0, off = 0, len = 16, cap = 20\<rparr>, Header = zero_FrameHeader,
        Payload = \<lparr>arr = 0, off = 16, len = 4, cap = 4\<rparr>\<rparr> \<and>
   len (Payload \<lparr>buffer = \<lparr>arr = 0, off = 0, len = 20, cap = 20\<rparr>,
        headerBuffer = \<lparr>arr = 0, off = 0, len = 16, cap = 20\<rparr>, Header = zero_FrameHeader,
        Payload = \<lparr>arr = 0, off = 16, len = 4, cap = 4\<rparr>\<rparr>) < length (concat [[1, 2, 3], [4, 5 :: byte]]) \<and>
   Frame_write \<lparr>buffer = \<lparr>arr = 0, off = 0, len = 20, cap = 20\<rparr>,
        headerBuffer = \<lparr>arr = 0, off = 0, len = 16, cap = 20\<rparr>, Header = zero_FrameHeader,
        Payload = \<lparr>arr = 0, off = 16, len = 4, cap = 4\<rparr>\<rparr> (bytes_message 42 7 [[1, 2, 3], [4, 5]]) [replicate 20 0]
     = (Some ErrBufferFull,
        \<lparr>buffer = \<lparr>arr = 0, off = 0, len = 20, cap = 20\<rparr>,
        headerBuffer = \<lparr>arr = 0, off = 0, len = 16, cap = 20\<rparr>, Header = zero_FrameHeader,
        Payload = \<lparr>arr = 0, off = 16, len = 4, cap = 4\<rparr>\<rparr>,
        [replicate 16 0 @ [1, 2, 3, 0]])"
proof -
  let ?f = "\<lparr>buffer = \<lparr>arr = 0, off = 0, len = 20, cap = 20\<rparr>,
        headerBuffer = \<lparr>arr = 0, off = 0, len = 16, cap = 20\<rparr>, Header = zero_FrameHeader,
        Payload = \<lparr>arr = 0, off = 16, len = 4, cap = 4\<rparr>\<rparr>"
  let ?w = "\<lparr>wb_buffer = \<lparr>arr = 0, off = 16, len = 4, cap = 4\<rparr>,
         wb_remaining = \<lparr>arr = 0, off = 19, len = 1, cap = 1\<rparr>, wb_err = Some ErrBufferFull\<rparr>"
  have 1: "msg_write (bytes_message 42 7 [[1, 2, 3], [4, 5]]) (WriteBuffer_Wrap (Payload ?f)) [replicate 20 0]
             = (Some ErrBufferFull, ?w, [replicate 16 0 @ [1, 2, 3, 0]])"
    by (simp add: bytes_message_def write_chunks_def WriteBytes_def WriteBuffer_Wrap_def
        reslice_def copy_bytes_def)
  have 2: "frame_wf [replicate 20 0] ?f"
    by (simp add: frame_wf_def)
  have 3: "len (Payload ?f) < length (concat [[1, 2, 3], [4, 5 :: byte]])"
    by simp
  from Frame_write_failure_keeps_header [of "bytes_message 42 7 [[1, 2, 3], [4, 5]]" ?f
      "[replicate 20 0]" ErrBufferFull ?w "[replicate 16 0 @ [1, 2, 3, 0]]"] 1 2 3
  show ?thesis by blast
qed

end
